theory Spec2Isabelle
  imports Main "HOL-Library.AList" "HOL-Library.Sublist"
begin

section \<open>The import graph (prefix trie over import-path segments)\<close>

subsection \<open>Dependencies\<close>

text \<open>
  The \<open>Dep\<close> struct is declared outside the files at hand; the graph reads only its
  \<open>Import\<close> field, the resolution pipeline reads \<open>CheckoutSpec\<close>, \<open>fetch\<close> and the result
  of \<open>CheckoutType()\<close>.
\<close>

datatype checkout_kind = BranchFlag | CommitFlag | TagFlag

text \<open>
  Modelled from the spec: the declaration of \<open>Dep\<close> is missing. The spec lists an import
  identifier, an inferred SCM kind, a source locator, at most one checkout spec
  (kind branch, commit or tag, plus a literal value) and one boolean; the field names
  \<open>Import\<close>, \<open>CheckoutSpec\<close> and \<open>fetch\<close> are the ones the callers use.
\<close>

record dep =
  Import :: string
  Scm :: string
  Source :: string
  CheckoutFlag :: "checkout_kind option"
  CheckoutSpec :: string
  fetch :: bool

subsection \<open>Nodes and graphs\<close>

text \<open>
  A Go \<open>map[string]*Node\<close> is an association list read with \<^const>\<open>map_of\<close> and written
  with \<^const>\<open>AList.update\<close> (replace the entry of an existing key in place, append a new
  key). A \<open>*Dep\<close> that may be \<open>nil\<close> is a \<open>dep option\<close>. Every node is referenced from
  exactly one map (a node is either found in the map it is stored back into, or freshly
  allocated), so the pointer structure is a tree and is modelled by value.
\<close>

datatype node = Node (Key: string) (Dependency: "dep option") (Leaf: bool)
  (Nodes: "(string \<times> node) list")

datatype graph = Graph (GraphNodes: "(string \<times> node) list")

definition NewGraph :: graph where
  "NewGraph = Graph []"

text \<open>\<open>strings.Split(s, "/")\<close>: the segments between slashes; never an empty list.\<close>

fun Split :: "string \<Rightarrow> string list" where
  "Split [] = [[]]"
| "Split (c # cs) =
     (if c = CHR ''/'' then [] # Split cs
      else (case Split cs of [] \<Rightarrow> [[c]] | w # ws \<Rightarrow> (c # w) # ws))"

text \<open>
  \<open>deepInsert\<close>. Indexing \<open>keys[0]\<close> of an empty slice panics: the result \<open>None\<close>.
\<close>

fun deepInsert :: "(string \<times> node) list \<Rightarrow> string list \<Rightarrow> dep \<Rightarrow> node option" where
  "deepInsert nodes [] dependency = None"
| "deepInsert nodes (key # newKeys) dependency =
     (let node = (case map_of nodes key of
                    Some found \<Rightarrow> found
                  | None \<Rightarrow> Node key None False [])
      in if length newKeys = 0
         then Some (Node (Key node) (Some dependency) True (Nodes node))
         else (case deepInsert (Nodes node) newKeys dependency of
                 None \<Rightarrow> None
               | Some child \<Rightarrow>
                   Some (Node (Key node) (Dependency node) (Leaf node)
                           (AList.update (hd newKeys) child (Nodes node)))))"

definition Insert :: "dep \<Rightarrow> graph \<Rightarrow> graph option" where
  "Insert dependency graph =
     (let keys = Split (Import dependency)
      in case deepInsert (GraphNodes graph) keys dependency of
           None \<Rightarrow> None
         | Some n \<Rightarrow> Some (Graph (AList.update (hd keys) n (GraphNodes graph))))"

text \<open>The loop of \<open>Search\<close> over the keys, and \<open>Search\<close> itself; \<open>nil\<close> is \<open>None\<close>.\<close>

fun searchKeys :: "(string \<times> node) list \<Rightarrow> string list \<Rightarrow> node option" where
  "searchKeys nodes [] = None"
| "searchKeys nodes (key # keys) =
     (case map_of nodes key of
        None \<Rightarrow> None
      | Some node \<Rightarrow> if Leaf node then Some node else searchKeys (Nodes node) keys)"

definition Search :: "graph \<Rightarrow> string \<Rightarrow> node option" where
  "Search graph importPath = searchKeys (GraphNodes graph) (Split importPath)"

text \<open>A sequence of \<open>Insert\<close> calls, in order.\<close>

fun InsertAll :: "dep list \<Rightarrow> graph \<Rightarrow> graph option" where
  "InsertAll [] graph = Some graph"
| "InsertAll (d # ds) graph =
     (case Insert d graph of None \<Rightarrow> None | Some graph' \<Rightarrow> InsertAll ds graph')"

subsection \<open>Paths, shapes and node enumeration\<close>

fun nodeAt :: "(string \<times> node) list \<Rightarrow> string list \<Rightarrow> node option" where
  "nodeAt nodes [] = None"
| "nodeAt nodes [key] = map_of nodes key"
| "nodeAt nodes (key # keys) =
     (case map_of nodes key of None \<Rightarrow> None | Some node \<Rightarrow> nodeAt (Nodes node) keys)"

definition leafAt :: "(string \<times> node) list \<Rightarrow> string list \<Rightarrow> bool" where
  "leafAt nodes keys = (case nodeAt nodes keys of None \<Rightarrow> False | Some node \<Rightarrow> Leaf node)"

definition depAt :: "(string \<times> node) list \<Rightarrow> string list \<Rightarrow> dep option" where
  "depAt nodes keys = (case nodeAt nodes keys of None \<Rightarrow> None | Some node \<Rightarrow> Dependency node)"

fun subnodes :: "node \<Rightarrow> node list" where
  "subnodes (Node k d l cs) = Node k d l cs # concat (map (\<lambda>kc. subnodes (snd kc)) cs)"

datatype shape = Shape string bool "(string \<times> shape) list"

fun shapeOf :: "node \<Rightarrow> shape" where
  "shapeOf (Node k d l cs) = Shape k l (map (\<lambda>kc. (fst kc, shapeOf (snd kc))) cs)"

definition insertNodes :: "(string \<times> node) list \<Rightarrow> string list \<Rightarrow> dep \<Rightarrow> (string \<times> node) list option" where
  "insertNodes nodes keys d =
     (case deepInsert nodes keys d of
        None \<Rightarrow> None
      | Some n \<Rightarrow> Some (AList.update (hd keys) n nodes))"


text \<open>The inverse of \<^const>\<open>Split\<close>: \<open>strings.Join(keys, "/")\<close>.\<close>

fun joinSlash :: "string list \<Rightarrow> string" where
  "joinSlash [] = []"
| "joinSlash [w] = w"
| "joinSlash (w # ws) = w @ CHR ''/'' # joinSlash ws"

text \<open>All nodes of a graph, its shape (everything but the dependencies), its leaves.\<close>

definition graphNodes :: "graph \<Rightarrow> node list" where
  "graphNodes g = concat (map (\<lambda>kc. subnodes (snd kc)) (GraphNodes g))"

definition graphShape :: "graph \<Rightarrow> (string \<times> shape) list" where
  "graphShape g = map (\<lambda>kc. (fst kc, shapeOf (snd kc))) (GraphNodes g)"

definition leafCount :: "graph \<Rightarrow> nat" where
  "leafCount g = length (filter Leaf (graphNodes g))"

subsection \<open>Example dependencies\<close>

definition exampleDep :: "string \<Rightarrow> dep" where
  "exampleDep i = \<lparr>Import = i, Scm = [], Source = [], CheckoutFlag = None,
     CheckoutSpec = [], fetch = False\<rparr>"

definition exA :: dep where "exA = exampleDep ''a''"
definition exAB :: dep where "exAB = exampleDep ''a/b''"
definition exABC :: dep where "exABC = exampleDep ''a/b/c''"
definition exXY :: dep where "exXY = exampleDep ''x/y''"
definition exAB' :: dep where "exAB' = (exampleDep ''a/b'')\<lparr>Source := ''elsewhere''\<rparr>"

section \<open>The world around the program\<close>

text \<open>
  A call either returns a value, or ends the process (\<open>os.Exit\<close> with its code), or
  panics (a nil dereference, a failed type assertion, an index out of range).
  \<open>Diverge\<close> is the outcome of a recursion whose depth bound is exhausted.
\<close>

datatype 'a outcome = Ok 'a | Exit int | Panic | Diverge

text \<open>
  A path of the file system names no file, a file with its content, or a file that
  cannot be accessed (reading and writing fail with an error other than "not exist").
\<close>

datatype fileState = Absent | Content string | Unreadable

type_synonym fs = "string \<Rightarrow> fileState"

text \<open>The calls worth observing, in the order they happen.\<close>

datatype event =
    EvValidate dep
  | EvFetch dep bool
  | EvRetrieve dep
  | EvGet dep
  | EvCheckout dep
  | EvLoadTransitive dep
  | EvValidateSet "string list"
  | EvWriteChecksum string
  | EvFail
  | EvFailf string
  | EvFailWith "string list"

text \<open>
  The state of a run: the global \<open>pwd\<close>, the file system, the one \<open>Graph\<close> allocated by
  \<open>loadConfiguration\<close> (every \<open>Dependencies.ImportGraph\<close> points to it), and the trace of
  observed calls.
\<close>

record world =
  pwd :: string
  files :: fs
  importGraph :: graph
  trace :: "event list"

definition emit :: "event \<Rightarrow> world \<Rightarrow> world" where
  "emit e w = w\<lparr>trace := trace w @ [e]\<rparr>"

text \<open>Sequencing: the second call runs only when the first one returns.\<close>

definition andThen ::
  "'a outcome \<times> world \<Rightarrow> ('a \<Rightarrow> world \<Rightarrow> 'b outcome \<times> world) \<Rightarrow> 'b outcome \<times> world" where
  "andThen r f =
     (case r of
        (Ok a, w) \<Rightarrow> f a w
      | (Exit n, w) \<Rightarrow> (Exit n, w)
      | (Panic, w) \<Rightarrow> (Panic, w)
      | (Diverge, w) \<Rightarrow> (Diverge, w))"

text \<open>The parsed declaration: go-toml's tree, with its keys in the order of the file.\<close>

datatype toml = TString string | TTree "(string \<times> toml) list" | TOther

type_synonym tomlTree = "(string \<times> toml) list"

text \<open>
  Modelled from the spec: the declaration of \<open>Dependencies\<close> is missing; the spec lists
  index-aligned sequences of declaration key, raw import string and Dep. A slot of
  \<open>DepList\<close> made by \<open>make([]*Dep, n)\<close> is \<open>nil\<close> until it is assigned. The field
  \<open>ImportGraph\<close> is the pointer to the graph of the \<^typ>\<open>world\<close>.
\<close>

record dependencies =
  Imports :: "string list"
  Keys :: "string list"
  DepList :: "dep option list"

record config =
  Checksum :: "string option"
  Path :: string
  Repository :: string
  DepsTree :: "tomlTree option"
  DevDepsTree :: "tomlTree option"

datatype symlinkResult = SymlinkOk | SymlinkExists | SymlinkError

text \<open>
  What lies outside the files at hand, as parameters: the libraries (\<open>crypto/md5\<close>,
  go-toml's parser, \<open>os.Symlink\<close>) and the methods of \<open>Dep\<close> and \<open>Dependencies\<close> that
  the code calls. The operations on the disk take the file system and return it; a
  \<open>False\<close> result is a fatal retrieval error. \<open>os.MkdirAll\<close> creates directories only and
  the code ignores its error: the file system of the model, which has files only, is
  the same after it.
\<close>

record ext =
  md5 :: "string \<Rightarrow> string"
  tomlLoad :: "string \<Rightarrow> tomlTree option"
  Symlink :: "string \<Rightarrow> string \<Rightarrow> fs \<Rightarrow> symlinkResult \<times> fs"
  NewDependency :: "string \<Rightarrow> dep"
  setScm :: "tomlTree \<Rightarrow> dep \<Rightarrow> dep"
  setSource :: "tomlTree \<Rightarrow> dep \<Rightarrow> dep"
  setCheckout :: "tomlTree \<Rightarrow> string \<Rightarrow> checkout_kind \<Rightarrow> dep \<Rightarrow> dep"
  DepValidate :: "dep \<Rightarrow> string option"
  targetExists :: "dep \<Rightarrow> fs \<Rightarrow> bool"
  retrieve :: "dep \<Rightarrow> fs \<Rightarrow> bool \<times> fs"
  DepGet :: "dep \<Rightarrow> fs \<Rightarrow> bool \<times> fs"
  CheckoutType :: "dep \<Rightarrow> string"
  switchToBranchOrTag :: "dep \<Rightarrow> fs \<Rightarrow> bool \<times> fs"
  nestedDir :: "dep \<Rightarrow> string"
  setChecks :: "dep list \<Rightarrow> string list"

section \<open>main.go: failing\<close>

definition fail :: "world \<Rightarrow> 'a outcome \<times> world" where
  "fail w = (Exit 1, emit EvFail w)"

definition failf :: "string \<Rightarrow> world \<Rightarrow> 'a outcome \<times> world" where
  "failf s w = (Exit 1, emit (EvFailf s) w)"

text \<open>\<open>failWith\<close> prints every error and exits with their number; no error, no effect.\<close>

definition failWith :: "string list \<Rightarrow> world \<Rightarrow> unit outcome \<times> world" where
  "failWith errors w =
     (if length errors > 0 then (Exit (int (length errors)), emit (EvFailWith errors) w)
      else (Ok (), w))"

section \<open>config.go\<close>

definition GopackChecksum :: string where "GopackChecksum = ''.gopack/checksum''"

text \<open>\<open>filepath.Join\<close> of two elements, without the cleaning of the result.\<close>

definition filepathJoin :: "string \<Rightarrow> string \<Rightarrow> string" where
  "filepathJoin a b = (if a = [] then b else if b = [] then a else a @ CHR ''/'' # b)"

text \<open>\<open>hex.EncodeToString\<close>: two lower-case digits for every byte.\<close>

definition hexDigit :: "nat \<Rightarrow> char" where
  "hexDigit n = ''0123456789abcdef'' ! (n mod 16)"

definition hexEncodeToString :: "string \<Rightarrow> string" where
  "hexEncodeToString bs =
     concat (map (\<lambda>c. [hexDigit (of_char c div 16), hexDigit (of_char c mod 16)]) bs)"

definition checksumPath :: "world \<Rightarrow> string" where
  "checksumPath w = filepathJoin (pwd w) GopackChecksum"

text \<open>
  \<open>checksum\<close>: the hash is computed from the declaration file once and cached in the
  \<open>Config\<close>; an unreadable declaration file is fatal.
\<close>

definition checksum :: "ext \<Rightarrow> config \<Rightarrow> world \<Rightarrow> (string \<times> config) outcome \<times> world" where
  "checksum X c w =
     (case Checksum c of
        None \<Rightarrow>
          (case files w (Path c) of
             Content dat \<Rightarrow>
               (Ok (hexEncodeToString (md5 X dat), c\<lparr>Checksum := Some (md5 X dat)\<rparr>), w)
           | Absent \<Rightarrow> fail w
           | Unreadable \<Rightarrow> fail w)
      | Some hash \<Rightarrow> (Ok (hexEncodeToString hash, c), w))"

text \<open>
  \<open>modifiedChecksum\<close>. \<open>ioutil.ReadFile\<close> of a missing marker gives a "not exist" error,
  and the right operand of \<open>||\<close> is not evaluated; of an inaccessible marker another
  error and no data, which is compared with the checksum.
\<close>

definition modifiedChecksum :: "ext \<Rightarrow> config \<Rightarrow> world \<Rightarrow> (bool \<times> config) outcome \<times> world" where
  "modifiedChecksum X c w =
     (case files w (checksumPath w) of
        Absent \<Rightarrow> (Ok (True, c), w)
      | Content dat \<Rightarrow> andThen (checksum X c w) (\<lambda>(hash, c') w'. (Ok (dat \<noteq> hash, c'), w'))
      | Unreadable \<Rightarrow> andThen (checksum X c w) (\<lambda>(hash, c') w'. (Ok ([] \<noteq> hash, c'), w')))"

text \<open>\<open>ioutil.WriteFile\<close>: fails on a file that cannot be accessed.\<close>

definition WriteFile :: "string \<Rightarrow> string \<Rightarrow> fs \<Rightarrow> bool \<times> fs" where
  "WriteFile path dat f =
     (case f path of Unreadable \<Rightarrow> (False, f) | _ \<Rightarrow> (True, f(path := Content dat)))"

definition WriteChecksum :: "ext \<Rightarrow> config \<Rightarrow> world \<Rightarrow> config outcome \<times> world" where
  "WriteChecksum X c w =
     andThen (checksum X c w) (\<lambda>(hash, c') w1.
       (case WriteFile (checksumPath w1) hash (files w1) of
          (True, f) \<Rightarrow> (Ok c', emit (EvWriteChecksum hash) (w1\<lparr>files := f\<rparr>))
        | (False, f) \<Rightarrow> fail (w1\<lparr>files := f\<rparr>)))"

text \<open>
  \<open>NewConfig\<close>. \<open>toml.LoadFile\<close> fails on a file it cannot read or parse; the type
  assertions panic on a value of another kind.
\<close>

definition NewConfig :: "ext \<Rightarrow> string \<Rightarrow> world \<Rightarrow> config outcome \<times> world" where
  "NewConfig X dir w =
     (let path = filepathJoin dir ''gopack.config''
      in case files w path of
           Content dat \<Rightarrow>
             (case tomlLoad X dat of
                None \<Rightarrow> fail w
              | Some t \<Rightarrow>
                  (case (case map_of t ''deps'' of
                           None \<Rightarrow> Ok None
                         | Some (TTree deps) \<Rightarrow> Ok (Some deps)
                         | Some _ \<Rightarrow> Panic) of
                     Ok depsTree \<Rightarrow>
                       (case (case map_of t ''dev-deps'' of
                                None \<Rightarrow> Ok None
                              | Some (TTree deps) \<Rightarrow> Ok (Some deps)
                              | Some _ \<Rightarrow> Panic) of
                          Ok devDepsTree \<Rightarrow>
                            (case (case map_of t ''repo'' of
                                     None \<Rightarrow> Ok []
                                   | Some (TString repo) \<Rightarrow> Ok repo
                                   | Some _ \<Rightarrow> Panic) of
                               Ok repo \<Rightarrow>
                                 (Ok \<lparr>Checksum = None, Path = path, Repository = repo,
                                       DepsTree = depsTree, DevDepsTree = devDepsTree\<rparr>, w)
                             | _ \<Rightarrow> (Panic, w))
                        | _ \<Rightarrow> (Panic, w))
                   | _ \<Rightarrow> (Panic, w)))
         | Absent \<Rightarrow> fail w
         | Unreadable \<Rightarrow> fail w)"

definition VendorDir :: string where "VendorDir = ''.gopack/vendor''"

definition InitRepo :: "ext \<Rightarrow> config \<Rightarrow> world \<Rightarrow> unit outcome \<times> world" where
  "InitRepo X c w =
     (if Repository c \<noteq> [] then
        (let src = filepathJoin (filepathJoin (pwd w) VendorDir) ''src'';
             repo = filepathJoin src (Repository c)
         in case Symlink X (pwd w) repo (files w) of
              (SymlinkError, f3) \<Rightarrow> fail (w\<lparr>files := f3\<rparr>)
            | (_, f3) \<Rightarrow>
                (case Insert (NewDependency X (Repository c)) (importGraph w) of
                   None \<Rightarrow> (Panic, w\<lparr>files := f3\<rparr>)
                 | Some g \<Rightarrow> (Ok (), w\<lparr>files := f3, importGraph := g\<rparr>)))
      else (Ok (), w))"

text \<open>
  Modelled from the spec: \<open>Dep.Fetch\<close> is missing. The spec: if \<open>forceRefetch\<close> is false
  and the dependency's target path already exists on disk, retrieval is skipped;
  otherwise the retrieval operation is invoked unconditionally; a retrieval error is
  immediately fatal.
\<close>

definition Fetch :: "ext \<Rightarrow> bool \<Rightarrow> dep \<Rightarrow> world \<Rightarrow> unit outcome \<times> world" where
  "Fetch X forceRefetch d w =
     (let w1 = emit (EvFetch d forceRefetch) w
      in if \<not> forceRefetch \<and> targetExists X d (files w1) then (Ok (), w1)
         else (case retrieve X d (files w1) of
                 (True, f) \<Rightarrow> (Ok (), emit (EvRetrieve d) (w1\<lparr>files := f\<rparr>))
               | (False, f) \<Rightarrow> fail (emit (EvRetrieve d) (w1\<lparr>files := f\<rparr>))))"

text \<open>Lines 139 to 146 of \<open>addDepsTree\<close>: the Dep of one entry of the declaration.\<close>

definition entryDep :: "ext \<Rightarrow> tomlTree \<Rightarrow> string \<Rightarrow> dep" where
  "entryDep X depTree importPath =
     setCheckout X depTree ''tag'' TagFlag
       (setCheckout X depTree ''commit'' CommitFlag
         (setCheckout X depTree ''branch'' BranchFlag
           (setSource X depTree (setScm X depTree (NewDependency X importPath)))))"

text \<open>
  The loop of \<open>addDepsTree\<close> over \<open>depsTree.Keys()\<close>. It returns the error (or \<open>nil\<close>),
  with the \<open>Dependencies\<close> as filled so far. Assigning to a slice out of its range
  panics.
\<close>

fun addDepsKeys ::
  "ext \<Rightarrow> tomlTree \<Rightarrow> string list \<Rightarrow> bool \<Rightarrow> dependencies \<Rightarrow> nat \<Rightarrow> world \<Rightarrow>
     (string option \<times> dependencies) outcome \<times> world" where
  "addDepsKeys X depsTree [] modified deps pos w = (Ok (None, deps), w)"
| "addDepsKeys X depsTree (k # ks) modified deps pos w =
     (case map_of depsTree k of
        Some (TTree depTree) \<Rightarrow>
          (case map_of depTree ''import'' of
             Some (TString importPath) \<Rightarrow>
               (let d = entryDep X depTree importPath;
                    w1 = emit (EvValidate d) w
                in case DepValidate X d of
                     Some err \<Rightarrow> (Ok (Some err, deps), w1)
                   | None \<Rightarrow>
                       andThen (Fetch X modified d w1) (\<lambda>_ w2.
                         if pos < length (Keys deps) \<and> pos < length (Imports deps)
                            \<and> pos < length (DepList deps)
                         then (case Insert d (importGraph w2) of
                                 None \<Rightarrow> (Panic, w2)
                               | Some g \<Rightarrow>
                                   addDepsKeys X depsTree ks modified
                                     (deps\<lparr>Keys := (Keys deps)[pos := k],
                                            Imports := (Imports deps)[pos := Import d],
                                            DepList := (DepList deps)[pos := Some d]\<rparr>)
                                     (pos + 1) (w2\<lparr>importGraph := g\<rparr>))
                         else (Panic, w2)))
           | _ \<Rightarrow> (Panic, w))
      | _ \<Rightarrow> (Panic, w))"

definition addDepsTree ::
  "ext \<Rightarrow> dependencies \<Rightarrow> tomlTree option \<Rightarrow> bool \<Rightarrow> nat \<Rightarrow> world \<Rightarrow>
     (string option \<times> dependencies) outcome \<times> world" where
  "addDepsTree X deps depsTree modified pos w =
     (case depsTree of
        None \<Rightarrow> (Ok (None, deps), w)
      | Some t \<Rightarrow> addDepsKeys X t (map fst t) modified deps pos w)"

text \<open>\<open>t.Keys()\<close> on a \<open>*toml.TomlTree\<close> that may be \<open>nil\<close>: a nil dereference panics.\<close>

definition TreeKeys :: "tomlTree option \<Rightarrow> string list outcome" where
  "TreeKeys t = (case t of None \<Rightarrow> Panic | Some tree \<Rightarrow> Ok (map fst tree))"

text \<open>
  \<open>LoadDependencyModel\<close> returns \<open>(deps, err)\<close>: \<open>Inl err\<close> for an error, \<open>Inr None\<close> for
  \<open>(nil, nil)\<close>. The arguments of the second \<open>addDepsTree\<close> call are evaluated before the
  call.
\<close>

definition LoadDependencyModel ::
  "ext \<Rightarrow> config \<Rightarrow> world \<Rightarrow> ((string + dependencies option) \<times> config) outcome \<times> world" where
  "LoadDependencyModel X c w =
     (let totalDeps = (case DepsTree c of None \<Rightarrow> 0 | Some t \<Rightarrow> length (map fst t))
                    + (case DevDepsTree c of None \<Rightarrow> 0 | Some t \<Rightarrow> length (map fst t))
      in if totalDeps = 0 then (Ok (Inr None, c), w)
         else
           (let deps = \<lparr>Imports = replicate totalDeps [], Keys = replicate totalDeps [],
                         DepList = replicate totalDeps None\<rparr>
            in andThen (modifiedChecksum X c w) (\<lambda>(modified, c1) w1.
                 andThen (addDepsTree X deps (DepsTree c1) modified 0 w1) (\<lambda>(err, deps1) w2.
                   case err of
                     Some e \<Rightarrow> (Ok (Inl e, c1), w2)
                   | None \<Rightarrow>
                       (case TreeKeys (DepsTree c1) of
                          Ok keys \<Rightarrow>
                            andThen (addDepsTree X deps1 (DevDepsTree c1) modified (length keys) w2)
                              (\<lambda>(err, deps2) w3.
                                 case err of
                                   Some e \<Rightarrow> (Ok (Inl e, c1), w3)
                                 | None \<Rightarrow> (Ok (Inr (Some deps2), c1), w3))
                        | _ \<Rightarrow> (Panic, w2))))))"

definition markerData :: "fileState \<Rightarrow> string" where
  "markerData f = (case f of Content dat \<Rightarrow> dat | _ \<Rightarrow> [])"

section \<open>main.go: the resolution pipeline\<close>

text \<open>
  Modelled from the spec: \<open>Dependencies.Validate\<close> is missing. The spec: it runs
  \<open>Dep.Validate\<close> over every member plus whole-set checks, and returns the full
  aggregated error list. The whole-set checks (which read the facts of the project, the
  argument \<open>p\<close>) are the parameter \<^const>\<open>setChecks\<close>.
\<close>

definition memberErrors :: "ext \<Rightarrow> dep option list \<Rightarrow> string list" where
  "memberErrors X ds =
     concat (map (\<lambda>d. case d of
                          None \<Rightarrow> []
                        | Some d' \<Rightarrow> (case DepValidate X d' of None \<Rightarrow> [] | Some e \<Rightarrow> [e])) ds)"

definition DependenciesValidate :: "ext \<Rightarrow> dependencies \<Rightarrow> string list" where
  "DependenciesValidate X deps =
     memberErrors X (DepList deps) @ setChecks X (List.map_filter id (DepList deps))"

text \<open>
  Modelled from the spec: \<open>Dependencies.VisitDeps\<close> is missing. The spec: it applies a
  caller-supplied routine to every Dep in declaration order, synchronously. A routine
  that ends the process ends the visit.
\<close>

fun visitList ::
  "dep option list \<Rightarrow> (dep option \<Rightarrow> world \<Rightarrow> unit outcome \<times> world) \<Rightarrow> world \<Rightarrow>
     unit outcome \<times> world" where
  "visitList [] routine w = (Ok (), w)"
| "visitList (d # ds) routine w = andThen (routine d w) (\<lambda>_ w'. visitList ds routine w')"

definition VisitDeps ::
  "dependencies \<Rightarrow> (dep option \<Rightarrow> world \<Rightarrow> unit outcome \<times> world) \<Rightarrow> world \<Rightarrow>
     unit outcome \<times> world" where
  "VisitDeps deps routine w = visitList (DepList deps) routine w"

text \<open>
  \<open>Dep.Get\<close> and \<open>Dep.switchToBranchOrTag\<close> are missing and opaque: operations on the
  disk that succeed or are fatal; they leave the fields of the Dep as they are.
\<close>

definition Get :: "ext \<Rightarrow> dep \<Rightarrow> world \<Rightarrow> unit outcome \<times> world" where
  "Get X d w =
     (case DepGet X d (files w) of
        (True, f) \<Rightarrow> (Ok (), emit (EvGet d) (w\<lparr>files := f\<rparr>))
      | (False, f) \<Rightarrow> fail (emit (EvGet d) (w\<lparr>files := f\<rparr>)))"

definition SwitchToBranchOrTag :: "ext \<Rightarrow> dep \<Rightarrow> world \<Rightarrow> unit outcome \<times> world" where
  "SwitchToBranchOrTag X d w =
     (case switchToBranchOrTag X d (files w) of
        (True, f) \<Rightarrow> (Ok (), emit (EvCheckout d) (w\<lparr>files := f\<rparr>))
      | (False, f) \<Rightarrow> fail (emit (EvCheckout d) (w\<lparr>files := f\<rparr>)))"

text \<open>
  Modelled from the spec: \<open>Dep.LoadTransitiveDeps\<close> is missing. The spec: it parses the
  nested declaration of the dependency and returns a new Dependencies set scoped to the
  same shared Graph, or nothing if the nested declaration has no dependencies. The
  directory of the nested declaration is the parameter \<^const>\<open>nestedDir\<close>.
\<close>

definition LoadTransitiveDeps ::
  "ext \<Rightarrow> dep \<Rightarrow> world \<Rightarrow> (string + dependencies option) outcome \<times> world" where
  "LoadTransitiveDeps X d w =
     andThen (NewConfig X (nestedDir X d) (emit (EvLoadTransitive d) w)) (\<lambda>c w1.
       andThen (LoadDependencyModel X c w1) (\<lambda>(r, c') w2. (Ok r, w2)))"

text \<open>
  \<open>loadTransitiveDependencies\<close>. The recursion of the source need not end (a dependency
  may declare itself); the first argument bounds its depth. Reading \<open>dep.Import\<close> of a
  \<open>nil\<close> Dep panics.
\<close>

fun loadTransitiveDependencies ::
  "ext \<Rightarrow> nat \<Rightarrow> dependencies \<Rightarrow> world \<Rightarrow> unit outcome \<times> world" where
  "loadTransitiveDependencies X 0 dependencies w = (Diverge, w)"
| "loadTransitiveDependencies X (Suc n) dependencies w =
     VisitDeps dependencies
       (\<lambda>dep w0.
          case dep of
            None \<Rightarrow> (Panic, w0)
          | Some dep \<Rightarrow>
              andThen (Get X dep w0) (\<lambda>_ w1.
                andThen (if CheckoutType X dep \<noteq> []
                         then SwitchToBranchOrTag X dep w1 else (Ok (), w1)) (\<lambda>_ w2.
                  if fetch dep then
                    andThen (LoadTransitiveDeps X dep w2) (\<lambda>r w3.
                      case r of
                        Inl err \<Rightarrow> failf err w3
                      | Inr None \<Rightarrow> (Ok (), w3)
                      | Inr (Some transitive) \<Rightarrow> loadTransitiveDependencies X n transitive w3)
                  else (Ok (), w2))))
       w"

definition loadConfiguration ::
  "ext \<Rightarrow> string \<Rightarrow> world \<Rightarrow> (config \<times> dependencies option) outcome \<times> world" where
  "loadConfiguration X dir w =
     andThen (NewConfig X dir (w\<lparr>importGraph := NewGraph\<rparr>)) (\<lambda>config w1.
       andThen (InitRepo X config w1) (\<lambda>_ w2.
         andThen (LoadDependencyModel X config w2) (\<lambda>(r, config') w3.
           case r of
             Inl err \<Rightarrow> failf err w3
           | Inr dependencies \<Rightarrow> (Ok (config', dependencies), w3))))"

definition loadDependencies ::
  "ext \<Rightarrow> nat \<Rightarrow> string \<Rightarrow> world \<Rightarrow> (config \<times> dependencies option) outcome \<times> world" where
  "loadDependencies X depth root w =
     andThen (loadConfiguration X root w) (\<lambda>(config, dependencies) w1.
       case dependencies of
         None \<Rightarrow> (Ok (config, None), w1)
       | Some deps \<Rightarrow>
           (let errors = DependenciesValidate X deps
            in andThen (failWith errors (emit (EvValidateSet errors) w1)) (\<lambda>_ w2.
                 andThen (loadTransitiveDependencies X depth deps w2) (\<lambda>_ w3.
                   andThen (WriteChecksum X config w3) (\<lambda>config' w4.
                     (Ok (config', Some deps), w4))))))"

section \<open>The pipeline as the spec words it\<close>

text \<open>
  For each Dep at the current level, in declaration order: fetch, pin the checkout if one
  is declared, and if the Dep owns a nested declaration, load its nested Dependencies on
  the shared graph and, if there are any, recurse into them before the next sibling.
\<close>

fun resolveLevel :: "ext \<Rightarrow> nat \<Rightarrow> dep option list \<Rightarrow> world \<Rightarrow> unit outcome \<times> world" where
  "resolveLevel X n [] w = (Ok (), w)"
| "resolveLevel X n (None # siblings) w = (Panic, w)"
| "resolveLevel X n (Some d # siblings) w =
     (case Get X d w of
        (Ok _, w1) \<Rightarrow>
          (case (if CheckoutType X d \<noteq> [] then SwitchToBranchOrTag X d w1 else (Ok (), w1)) of
             (Ok _, w2) \<Rightarrow>
               (if fetch d then
                  (case LoadTransitiveDeps X d w2 of
                     (Ok (Inl err), w3) \<Rightarrow> failf err w3
                   | (Ok (Inr None), w3) \<Rightarrow> resolveLevel X n siblings w3
                   | (Ok (Inr (Some nested)), w3) \<Rightarrow>
                       (case n of
                          0 \<Rightarrow> (Diverge, w3)
                        | Suc m \<Rightarrow>
                            (case resolveLevel X m (DepList nested) w3 of
                               (Ok _, w4) \<Rightarrow> resolveLevel X n siblings w4
                             | (Exit c, w4) \<Rightarrow> (Exit c, w4)
                             | (Panic, w4) \<Rightarrow> (Panic, w4)
                             | (Diverge, w4) \<Rightarrow> (Diverge, w4)))
                   | (Exit c, w3) \<Rightarrow> (Exit c, w3)
                   | (Panic, w3) \<Rightarrow> (Panic, w3)
                   | (Diverge, w3) \<Rightarrow> (Diverge, w3))
                else resolveLevel X n siblings w2)
           | (Exit c, w2) \<Rightarrow> (Exit c, w2)
           | (Panic, w2) \<Rightarrow> (Panic, w2)
           | (Diverge, w2) \<Rightarrow> (Diverge, w2))
      | (Exit c, w1) \<Rightarrow> (Exit c, w1)
      | (Panic, w1) \<Rightarrow> (Panic, w1)
      | (Diverge, w1) \<Rightarrow> (Diverge, w1))"

section \<open>Notions used in the statements\<close>

text \<open>
  The operations on the disk leave the file \<open>p\<close> as it is: the assumption under which
  the marker is written by \<open>WriteChecksum\<close> alone.
\<close>

definition keepsFile :: "ext \<Rightarrow> string \<Rightarrow> bool" where
  "keepsFile X p =
     ((\<forall>a b f. snd (Symlink X a b f) p = f p) \<and>
      (\<forall>d f. snd (retrieve X d f) p = f p) \<and>
      (\<forall>d f. snd (DepGet X d f) p = f p) \<and>
      (\<forall>d f. snd (switchToBranchOrTag X d f) p = f p))"

text \<open>The events of loading a declaration, and those of the resolution that follows.\<close>

fun loaderEvent :: "event \<Rightarrow> bool" where
  "loaderEvent (EvValidate d) = True"
| "loaderEvent (EvFetch d b) = True"
| "loaderEvent (EvRetrieve d) = True"
| "loaderEvent EvFail = True"
| "loaderEvent (EvFailf s) = True"
| "loaderEvent e = False"

fun pipelineEvent :: "event \<Rightarrow> bool" where
  "pipelineEvent (EvGet d) = True"
| "pipelineEvent (EvCheckout d) = True"
| "pipelineEvent (EvLoadTransitive d) = True"
| "pipelineEvent e = False"

fun resolutionEvent :: "event \<Rightarrow> bool" where
  "resolutionEvent (EvValidateSet errs) = False"
| "resolutionEvent (EvWriteChecksum h) = False"
| "resolutionEvent (EvFailWith errs) = False"
| "resolutionEvent e = True"

text \<open>
  From \<open>w\<close> to \<open>w'\<close>: \<open>pwd\<close> is the same, the file \<open>p\<close> is the same (if the disk
  operations keep it), and the trace has grown by events that satisfy \<open>P\<close>.
\<close>

definition step :: "ext \<Rightarrow> string \<Rightarrow> (event \<Rightarrow> bool) \<Rightarrow> world \<Rightarrow> world \<Rightarrow> bool" where
  "step X p P w w' =
     (pwd w' = pwd w \<and> (keepsFile X p \<longrightarrow> files w' p = files w p) \<and>
      (\<exists>l. trace w' = trace w @ l \<and> list_all P l))"

definition notWrite :: "event \<Rightarrow> bool" where
  "notWrite e = (\<forall>h. e \<noteq> EvWriteChecksum h)"

text \<open>
  An entry of a declaration table whose Dep is rejected by \<open>Dep.Validate\<close>, and the
  number of such entries in the two tables of a \<open>Config\<close>.
\<close>

definition invalidEntry :: "ext \<Rightarrow> tomlTree \<Rightarrow> string \<Rightarrow> bool" where
  "invalidEntry X t k =
     (case map_of t k of
        Some (TTree depTree) \<Rightarrow>
          (case map_of depTree ''import'' of
             Some (TString importPath) \<Rightarrow> DepValidate X (entryDep X depTree importPath) \<noteq> None
           | _ \<Rightarrow> False)
      | _ \<Rightarrow> False)"

definition invalidCount :: "ext \<Rightarrow> config \<Rightarrow> nat" where
  "invalidCount X c =
     (case DepsTree c of None \<Rightarrow> 0 | Some t \<Rightarrow> length (filter (invalidEntry X t) (map fst t)))
   + (case DevDepsTree c of None \<Rightarrow> 0 | Some t \<Rightarrow> length (filter (invalidEntry X t) (map fst t)))"

text \<open>Every Dep of a list passes \<open>Dep.Validate\<close>.\<close>

definition allValid :: "ext \<Rightarrow> dep option list \<Rightarrow> bool" where
  "allValid X ds = list_all (\<lambda>d. case d of None \<Rightarrow> True | Some d' \<Rightarrow> DepValidate X d' = None) ds"

text \<open>A call that returns, panics or exits with status 1.\<close>

definition exitsOne :: "'a outcome \<Rightarrow> bool" where
  "exitsOne r = (case r of Ok a \<Rightarrow> True | Exit n \<Rightarrow> n = 1 | Panic \<Rightarrow> True | Diverge \<Rightarrow> False)"

text \<open>
  The Dep that \<open>addDepsTree\<close> builds for the entry at key \<open>k\<close> of a table, if the entry is a
  table with a string for its import identifier; and the empty \<open>Dependencies\<close> that
  \<open>LoadDependencyModel\<close> allocates for a \<open>Config\<close>.
\<close>

definition entryOf :: "ext \<Rightarrow> tomlTree \<Rightarrow> string \<Rightarrow> dep option" where
  "entryOf X t k =
     (case map_of t k of
        Some (TTree depTree) \<Rightarrow>
          (case map_of depTree ''import'' of
             Some (TString importPath) \<Rightarrow> Some (entryDep X depTree importPath)
           | _ \<Rightarrow> None)
      | _ \<Rightarrow> None)"

definition totalDeps :: "config \<Rightarrow> nat" where
  "totalDeps c =
     (case DepsTree c of None \<Rightarrow> 0 | Some t \<Rightarrow> length (map fst t))
   + (case DevDepsTree c of None \<Rightarrow> 0 | Some t \<Rightarrow> length (map fst t))"

definition freshDeps :: "config \<Rightarrow> dependencies" where
  "freshDeps c = \<lparr>Imports = replicate (totalDeps c) [], Keys = replicate (totalDeps c) [],
     DepList = replicate (totalDeps c) None\<rparr>"

section \<open>An example instance\<close>

text \<open>
  One choice for the parameters, used to run the model on concrete declarations: a
  stand-in for the hash, a parser that knows a few declaration files, a disk where
  every operation succeeds, and a \<open>Dep.Validate\<close> that rejects an empty import
  identifier.
\<close>

definition exSetCheckout :: "tomlTree \<Rightarrow> string \<Rightarrow> checkout_kind \<Rightarrow> dep \<Rightarrow> dep" where
  "exSetCheckout t key flag d =
     (case map_of t key of
        Some (TString v) \<Rightarrow> d\<lparr>CheckoutFlag := Some flag, CheckoutSpec := v\<rparr>
      | _ \<Rightarrow> d)"

definition exCheckoutType :: "dep \<Rightarrow> string" where
  "exCheckoutType d =
     (case CheckoutFlag d of
        None \<Rightarrow> []
      | Some BranchFlag \<Rightarrow> ''branch''
      | Some CommitFlag \<Rightarrow> ''commit''
      | Some TagFlag \<Rightarrow> ''tag'')"

definition exEntry :: "string \<Rightarrow> string \<Rightarrow> string \<times> toml" where
  "exEntry key importPath = (key, TTree [(''import'', TString importPath)])"

definition exDeclarations :: "(string \<times> tomlTree) list" where
  "exDeclarations =
     [(''one-branch'',
         [(''deps'', TTree [(''foo'', TTree [(''import'', TString ''example.org/foo''),
                                             (''branch'', TString ''dev'')])])]),
      (''good-then-empty'',
         [(''deps'', TTree [exEntry ''one'' ''example.org/one'', exEntry ''two'' []])]),
      (''good-then-missing'',
         [(''deps'', TTree [exEntry ''one'' ''example.org/one'',
                            (''two'', TTree [(''branch'', TString ''dev'')])])]),
      (''two-invalid-of-three'',
         [(''deps'', TTree [exEntry ''one'' [], exEntry ''two'' [],
                            exEntry ''three'' ''example.org/three''])]),
      (''dev-only'',
         [(''dev-deps'', TTree [exEntry ''t'' ''example.org/t''])]),
      (''good-then-empty-dev'',
         [(''deps'', TTree [exEntry ''one'' ''example.org/one'']),
          (''dev-deps'', TTree [exEntry ''two'' ''example.org/two'', exEntry ''three'' [],
                                exEntry ''four'' []])]),
      (''twice'',
         [(''deps'', TTree [exEntry ''one'' ''example.org/one'',
                            exEntry ''again'' ''example.org/one''])]),
      (''parent'',
         [(''deps'', TTree [exEntry ''d1'' ''example.org/d1'',
                            exEntry ''d3'' ''example.org/d3''])]),
      (''child'',
         [(''deps'', TTree [exEntry ''d2'' ''example.org/d2''])])]"

definition exVendor :: "dep \<Rightarrow> string" where
  "exVendor d = ''vendor/'' @ Import d"

definition exDuplicates :: "dep list \<Rightarrow> string list" where
  "exDuplicates ds =
     map (\<lambda>d. ''duplicate '' @ Import d)
       (filter (\<lambda>d. 1 < length (filter (\<lambda>e. Import e = Import d) ds)) ds)"

definition exExt :: ext where
  "exExt = \<lparr>
     md5 = rev,
     tomlLoad = map_of exDeclarations,
     Symlink = (\<lambda>old new f. (SymlinkOk, f)),
     NewDependency = (\<lambda>i. (exampleDep i)\<lparr>fetch := (i = ''example.org/d1'')\<rparr>),
     setScm = (\<lambda>t d. d),
     setSource = (\<lambda>t d. d),
     setCheckout = exSetCheckout,
     DepValidate = (\<lambda>d. if Import d = [] then Some ''missing import'' else None),
     targetExists = (\<lambda>d f. f (exVendor d) \<noteq> Absent),
     retrieve = (\<lambda>d f. (True, f(exVendor d := Content []))),
     DepGet = (\<lambda>d f. (True, f)),
     CheckoutType = exCheckoutType,
     switchToBranchOrTag = (\<lambda>d f. (True, f)),
     nestedDir = exVendor,
     setChecks = exDuplicates\<rparr>"

text \<open>A project directory \<open>.\<close> holding the declaration \<open>decl\<close> and no marker.\<close>

definition exWorld :: "string \<Rightarrow> world" where
  "exWorld decl =
     \<lparr>pwd = ''/proj'',
      files = (\<lambda>p. Absent)(''./gopack.config'' := Content decl,
                            ''vendor/example.org/d1/gopack.config'' := Content ''child''),
      importGraph = NewGraph,
      trace = []\<rparr>"

definition exDevOnlyConfig :: config where
  "exDevOnlyConfig = \<lparr>Checksum = None, Path = ''./gopack.config'', Repository = [],
     DepsTree = None, DevDepsTree = Some [exEntry ''t'' ''example.org/t'']\<rparr>"

text \<open>The same project with a marker left by an earlier run.\<close>

definition exWorldMarked :: "string \<Rightarrow> string \<Rightarrow> world" where
  "exWorldMarked decl old =
     (exWorld decl)\<lparr>files := (files (exWorld decl))(''/proj/.gopack/checksum'' := Content old)\<rparr>"



text \<open>The \<open>Config\<close> of the declaration with three entries, two of them invalid.\<close>

definition exThreeConfig :: config where
  "exThreeConfig = \<lparr>Checksum = None, Path = ''./gopack.config'', Repository = [],
     DepsTree = Some [exEntry ''one'' [], exEntry ''two'' [],
                      exEntry ''three'' ''example.org/three''],
     DevDepsTree = None\<rparr>"

text \<open>The \<open>Config\<close> values that \<open>NewConfig\<close> makes of three of the declarations.\<close>

definition exGoodEmptyConfig :: config where
  "exGoodEmptyConfig = \<lparr>Checksum = None, Path = ''./gopack.config'', Repository = [],
     DepsTree = Some [exEntry ''one'' ''example.org/one'', exEntry ''two'' []],
     DevDepsTree = None\<rparr>"

definition exGoodEmptyDevConfig :: config where
  "exGoodEmptyDevConfig = \<lparr>Checksum = None, Path = ''./gopack.config'', Repository = [],
     DepsTree = Some [exEntry ''one'' ''example.org/one''],
     DevDepsTree = Some [exEntry ''two'' ''example.org/two'', exEntry ''three'' [],
                         exEntry ''four'' []]\<rparr>"

definition exTwiceConfig :: config where
  "exTwiceConfig = \<lparr>Checksum = None, Path = ''./gopack.config'', Repository = [],
     DepsTree = Some [exEntry ''one'' ''example.org/one'', exEntry ''again'' ''example.org/one''],
     DevDepsTree = None\<rparr>"
section \<open>Properties of the import graph\<close>

lemma Split_not_Nil [simp]: "Split s \<noteq> []"
  by (induction s) (auto split: list.splits)

lemma Nil_not_Split [simp]: "[] \<noteq> Split s"
  using Split_not_Nil[of s] by metis

lemma deepInsert_Some: "keys \<noteq> [] \<Longrightarrow> \<exists>n. deepInsert nodes keys d = Some n"
proof (induction keys arbitrary: nodes)
  case Nil then show ?case by simp
next
  case (Cons k ks)
  show ?case
  proof (cases ks)
    case Nil then show ?thesis by (simp add: Let_def)
  next
    case (Cons k' ks')
    then have "ks \<noteq> []" by simp
    from Cons.IH[OF this] show ?thesis using \<open>ks \<noteq> []\<close>
      by (auto simp add: Let_def split: option.splits)
  qed
qed

lemma insertNodes_Some: "keys \<noteq> [] \<Longrightarrow> \<exists>ns. insertNodes nodes keys d = Some ns"
  using deepInsert_Some[of keys nodes d] by (auto simp: insertNodes_def)

lemma insertNodes_single:
  "insertNodes nodes [k] d =
     Some (AList.update k (case map_of nodes k of
                             Some found \<Rightarrow> Node (Key found) (Some d) True (Nodes found)
                           | None \<Rightarrow> Node k (Some d) True []) nodes)"
  by (simp add: insertNodes_def Let_def split: option.splits)

lemma insertNodes_step:
  "ks \<noteq> [] \<Longrightarrow> insertNodes nodes (k # ks) d =
     (let node = (case map_of nodes k of Some found \<Rightarrow> found | None \<Rightarrow> Node k None False [])
      in case insertNodes (Nodes node) ks d of
           None \<Rightarrow> None
         | Some cs \<Rightarrow> Some (AList.update k (Node (Key node) (Dependency node) (Leaf node) cs) nodes))"
  by (simp add: insertNodes_def Let_def split: option.splits)

lemma nodeAt_Cons:
  "nodeAt nodes (k # ks) =
     (if ks = [] then map_of nodes k
      else case map_of nodes k of None \<Rightarrow> None | Some node \<Rightarrow> nodeAt (Nodes node) ks)"
  by (cases ks) auto

lemma nodeAt_empty [simp]: "nodeAt [] ks = None"
  by (cases ks) (simp_all add: nodeAt_Cons)


lemma nodeAt_update:
  "nodeAt (AList.update k n nodes) (q # qs) =
     (if q = k then (if qs = [] then Some n else nodeAt (Nodes n) qs)
      else nodeAt nodes (q # qs))"
  by (simp add: nodeAt_Cons update_conv')

lemma nodeAt_found_or_fresh:
  "qs \<noteq> [] \<Longrightarrow>
   nodeAt (Nodes (case map_of nodes k of Some found \<Rightarrow> found | None \<Rightarrow> Node k dd l [])) qs =
   nodeAt nodes (k # qs)"
  by (simp add: nodeAt_Cons split: option.splits)

lemma nodeAt_insertNodes_single:
  assumes "insertNodes nodes [k] d = Some nodes'"
  shows "nodeAt nodes' (q # qs) =
     (if q = k \<and> qs = []
      then Some (case map_of nodes k of
                   Some found \<Rightarrow> Node (Key found) (Some d) True (Nodes found)
                 | None \<Rightarrow> Node k (Some d) True [])
      else nodeAt nodes (q # qs))"
proof -
  have n': "nodes' = AList.update k (case map_of nodes k of
                             Some found \<Rightarrow> Node (Key found) (Some d) True (Nodes found)
                           | None \<Rightarrow> Node k (Some d) True []) nodes"
    using assms by (simp add: insertNodes_single)
  show ?thesis
    unfolding n' nodeAt_update
    by (auto simp: nodeAt_Cons split: option.splits)
qed

lemma nodeAt_insertNodes_step:
  assumes "insertNodes nodes (k # ks) d = Some nodes'" and "ks \<noteq> []"
  shows "\<exists>cs node. insertNodes (Nodes node) ks d = Some cs \<and>
           node = (case map_of nodes k of Some found \<Rightarrow> found | None \<Rightarrow> Node k None False []) \<and>
           (\<forall>q qs. nodeAt nodes' (q # qs) =
              (if q = k then (if qs = [] then Some (Node (Key node) (Dependency node) (Leaf node) cs)
                              else nodeAt cs qs)
               else nodeAt nodes (q # qs))) \<and>
           (\<forall>qs. qs \<noteq> [] \<longrightarrow> nodeAt (Nodes node) qs = nodeAt nodes (k # qs))"
proof -
  define node where "node = (case map_of nodes k of Some found \<Rightarrow> found | None \<Rightarrow> Node k None False [])"
  from assms obtain cs where
      cs: "insertNodes (Nodes node) ks d = Some cs" and
      n': "nodes' = AList.update k (Node (Key node) (Dependency node) (Leaf node) cs) nodes"
      by (auto simp: insertNodes_step Let_def node_def split: option.splits)
  have "\<forall>qs. qs \<noteq> [] \<longrightarrow> nodeAt (Nodes node) qs = nodeAt nodes (k # qs)"
    unfolding node_def using nodeAt_found_or_fresh by blast
  with cs n' show ?thesis
    unfolding node_def[symmetric] by (intro exI[of _ cs] exI[of _ node]) (simp add: nodeAt_update node_def)
qed

lemma leafAt_insertNodes:
  "insertNodes nodes ks d = Some nodes' \<Longrightarrow> p \<noteq> [] \<Longrightarrow>
     leafAt nodes' p = (p = ks \<or> leafAt nodes p)"
proof (induction ks arbitrary: nodes nodes' p)
  case Nil then show ?case by (simp add: insertNodes_def)
next
  case (Cons k ks)
  from Cons.prems(2) obtain q qs where p: "p = q # qs" by (cases p) auto
  show ?case
  proof (cases "ks = []")
    case True
    with Cons.prems(1) show ?thesis
      by (auto simp: nodeAt_insertNodes_single p leafAt_def split: option.splits)
  next
    case False
    from nodeAt_insertNodes_step[OF Cons.prems(1) False] obtain cs node where
      cs: "insertNodes (Nodes node) ks d = Some cs" and
      node: "node = (case map_of nodes k of Some found \<Rightarrow> found | None \<Rightarrow> Node k None False [])" and
      at: "\<And>q qs. nodeAt nodes' (q # qs) =
              (if q = k then (if qs = [] then Some (Node (Key node) (Dependency node) (Leaf node) cs)
                              else nodeAt cs qs)
               else nodeAt nodes (q # qs))" and
      old: "\<And>qs. qs \<noteq> [] \<Longrightarrow> nodeAt (Nodes node) qs = nodeAt nodes (k # qs)"
      by blast
    show ?thesis
    proof (cases "q = k \<and> qs \<noteq> []")
      case True
      then have "leafAt nodes' p = leafAt cs qs" by (simp add: leafAt_def p at)
      also have "\<dots> = (qs = ks \<or> leafAt (Nodes node) qs)" using Cons.IH[OF cs] True by blast
      also have "leafAt (Nodes node) qs = leafAt nodes p" using True old by (simp add: leafAt_def p)
      finally show ?thesis using True by (simp add: p)
    next
      case F: False
      then show ?thesis using False
        by (auto simp: leafAt_def p at node split: option.splits)
    qed
  qed
qed

lemma depAt_insertNodes:
  "insertNodes nodes ks d = Some nodes' \<Longrightarrow> p \<noteq> [] \<Longrightarrow>
     depAt nodes' p = (if p = ks then Some d else depAt nodes p)"
proof (induction ks arbitrary: nodes nodes' p)
  case Nil then show ?case by (simp add: insertNodes_def)
next
  case (Cons k ks)
  from Cons.prems(2) obtain q qs where p: "p = q # qs" by (cases p) auto
  show ?case
  proof (cases "ks = []")
    case True
    with Cons.prems(1) show ?thesis
      by (auto simp: nodeAt_insertNodes_single p depAt_def split: option.splits)
  next
    case False
    from nodeAt_insertNodes_step[OF Cons.prems(1) False] obtain cs node where
      cs: "insertNodes (Nodes node) ks d = Some cs" and
      node: "node = (case map_of nodes k of Some found \<Rightarrow> found | None \<Rightarrow> Node k None False [])" and
      at: "\<And>q qs. nodeAt nodes' (q # qs) =
              (if q = k then (if qs = [] then Some (Node (Key node) (Dependency node) (Leaf node) cs)
                              else nodeAt cs qs)
               else nodeAt nodes (q # qs))" and
      old: "\<And>qs. qs \<noteq> [] \<Longrightarrow> nodeAt (Nodes node) qs = nodeAt nodes (k # qs)"
      by blast
    show ?thesis
    proof (cases "q = k \<and> qs \<noteq> []")
      case True
      then have "depAt nodes' p = depAt cs qs" by (simp add: depAt_def p at)
      also have "\<dots> = (if qs = ks then Some d else depAt (Nodes node) qs)" using Cons.IH[OF cs] True by blast
      also have "depAt (Nodes node) qs = depAt nodes p" using True old by (simp add: depAt_def p)
      finally show ?thesis using True by (simp add: p)
    next
      case F: False
      then show ?thesis using False
        by (auto simp: depAt_def p at node split: option.splits)
    qed
  qed
qed


lemma leafAt_Cons:
  "leafAt nodes (k # ks) =
     (case map_of nodes k of None \<Rightarrow> False
      | Some m \<Rightarrow> if ks = [] then Leaf m else leafAt (Nodes m) ks)"
  by (simp add: leafAt_def nodeAt_Cons split: option.splits)

lemma searchKeys_first_leaf:
  "nodeAt nodes p = Some n \<Longrightarrow> Leaf n \<Longrightarrow>
   (\<forall>p'. p' \<noteq> [] \<longrightarrow> strict_prefix p' p \<longrightarrow> \<not> leafAt nodes p') \<Longrightarrow>
   searchKeys nodes (p @ r) = Some n"
proof (induction p arbitrary: nodes)
  case Nil then show ?case by simp
next
  case (Cons k ps)
  show ?case
  proof (cases "ps = []")
    case True
    with Cons.prems show ?thesis by simp
  next
    case False
    with Cons.prems(1) obtain m where m: "map_of nodes k = Some m" "nodeAt (Nodes m) ps = Some n"
      by (auto simp: nodeAt_Cons split: option.splits)
    have "strict_prefix [k] (k # ps)" using False by (simp add: strict_prefix_def)
    with Cons.prems(3) have "\<not> leafAt nodes [k]" by blast
    with m have nl: "\<not> Leaf m" by (simp add: leafAt_def)
    have "\<forall>p'. p' \<noteq> [] \<longrightarrow> strict_prefix p' ps \<longrightarrow> \<not> leafAt (Nodes m) p'"
    proof (intro allI impI)
      fix p' :: "string list" assume p': "p' \<noteq> []" "strict_prefix p' ps"
      then have "strict_prefix (k # p') (k # ps)" by (simp add: strict_prefix_def)
      with Cons.prems(3) have "\<not> leafAt nodes (k # p')" by blast
      with m p' show "\<not> leafAt (Nodes m) p'" by (simp add: leafAt_Cons)
    qed
    from Cons.IH[OF m(2) Cons.prems(2) this] m nl show ?thesis by simp
  qed
qed

lemma searchKeys_absent:
  "(\<forall>p'. p' \<noteq> [] \<longrightarrow> prefix p' p \<longrightarrow> \<not> leafAt nodes p') \<Longrightarrow>
   nodeAt nodes (p @ [k]) = None \<Longrightarrow> searchKeys nodes (p @ k # r) = None"
proof (induction p arbitrary: nodes)
  case Nil then show ?case by simp
next
  case (Cons a ps)
  show ?case
  proof (cases "map_of nodes a")
    case None then show ?thesis by simp
  next
    case (Some m)
    have "\<not> leafAt nodes [a]" using Cons.prems(1) by (metis Cons_prefix_Cons Nil_prefix list.distinct(1))
    with Some have nl: "\<not> Leaf m" by (simp add: leafAt_def)
    have 1: "\<forall>p'. p' \<noteq> [] \<longrightarrow> prefix p' ps \<longrightarrow> \<not> leafAt (Nodes m) p'"
    proof (intro allI impI)
      fix p' :: "string list" assume p': "p' \<noteq> []" "prefix p' ps"
      then have "prefix (a # p') (a # ps)" by simp
      with Cons.prems(1) have "\<not> leafAt nodes (a # p')" by blast
      with Some p' show "\<not> leafAt (Nodes m) p'" by (simp add: leafAt_Cons)
    qed
    have 2: "nodeAt (Nodes m) (ps @ [k]) = None"
      using Cons.prems(2) Some by (simp add: nodeAt_Cons)
    from Cons.IH[OF 1 2] Some nl show ?thesis by simp
  qed
qed

lemma searchKeys_None:
  "(\<forall>p. p \<noteq> [] \<longrightarrow> prefix p q \<longrightarrow> \<not> leafAt nodes p) \<Longrightarrow> searchKeys nodes q = None"
proof (induction q arbitrary: nodes)
  case Nil then show ?case by simp
next
  case (Cons a qs)
  show ?case
  proof (cases "map_of nodes a")
    case None then show ?thesis by simp
  next
    case (Some m)
    have "\<not> leafAt nodes [a]" using Cons.prems(1) by (metis Cons_prefix_Cons Nil_prefix list.distinct(1))
    with Some have nl: "\<not> Leaf m" by (simp add: leafAt_def)
    have 1: "\<forall>p'. p' \<noteq> [] \<longrightarrow> prefix p' qs \<longrightarrow> \<not> leafAt (Nodes m) p'"
    proof (intro allI impI)
      fix p' :: "string list" assume p': "p' \<noteq> []" "prefix p' qs"
      then have "prefix (a # p') (a # qs)" by simp
      with Cons.prems(1) have "\<not> leafAt nodes (a # p')" by blast
      with Some p' show "\<not> leafAt (Nodes m) p'" by (simp add: leafAt_Cons)
    qed
    from Cons.IH[OF 1] Some nl show ?thesis by simp
  qed
qed

lemma searchKeys_SomeD:
  "searchKeys nodes q = Some n \<Longrightarrow>
     Leaf n \<and> (\<exists>p. p \<noteq> [] \<and> prefix p q \<and> nodeAt nodes p = Some n)"
proof (induction q arbitrary: nodes)
  case Nil then show ?case by simp
next
  case (Cons a qs)
  then obtain m where m: "map_of nodes a = Some m" by (auto split: option.splits)
  show ?case
  proof (cases "Leaf m")
    case True
    with Cons.prems m have "n = m" by simp
    with True m have "Leaf n \<and> [a] \<noteq> [] \<and> prefix [a] (a # qs) \<and> nodeAt nodes [a] = Some n" by simp
    then show ?thesis by blast
  next
    case False
    with Cons.prems m have "searchKeys (Nodes m) qs = Some n" by simp
    from Cons.IH[OF this] obtain p where
      p: "Leaf n" "p \<noteq> []" "prefix p qs" "nodeAt (Nodes m) p = Some n" by blast
    then have "(a # p) \<noteq> [] \<and> prefix (a # p) (a # qs) \<and> nodeAt nodes (a # p) = Some n"
      using m by (simp add: nodeAt_Cons)
    with p(1) show ?thesis by blast
  qed
qed

subsection \<open>Sequences of insertions\<close>

lemma Insert_insertNodes:
  "Insert d g = map_option Graph (insertNodes (GraphNodes g) (Split (Import d)) d)"
  by (simp add: Insert_def insertNodes_def Let_def split: option.splits)

lemma Insert_total: "\<exists>g'. Insert d g = Some g'"
  using insertNodes_Some[OF Split_not_Nil, of "GraphNodes g" "Import d" d]
  by (auto simp: Insert_insertNodes)

lemma InsertAll_total: "\<exists>g'. InsertAll ds g = Some g'"
proof (induction ds arbitrary: g)
  case Nil show ?case by simp
next
  case (Cons d ds)
  obtain g1 where "Insert d g = Some g1" using Insert_total by blast
  with Cons.IH[of g1] show ?case by simp
qed

lemma InsertAll_append:
  "InsertAll (xs @ ys) g = (case InsertAll xs g of None \<Rightarrow> None | Some g' \<Rightarrow> InsertAll ys g')"
  by (induction xs arbitrary: g) (auto split: option.splits)

lemma leafAt_Nil [simp]: "\<not> leafAt nodes []"
  by (simp add: leafAt_def)

lemma depAt_Nil [simp]: "depAt nodes [] = None"
  by (simp add: depAt_def)

lemma leafAt_Insert:
  "Insert d g = Some g' \<Longrightarrow>
     leafAt (GraphNodes g') p = (p = Split (Import d) \<or> leafAt (GraphNodes g) p)"
  by (cases "p = []") (auto simp: Insert_insertNodes leafAt_insertNodes)

lemma depAt_Insert:
  "Insert d g = Some g' \<Longrightarrow>
     depAt (GraphNodes g') p = (if p = Split (Import d) then Some d else depAt (GraphNodes g) p)"
  by (cases "p = []") (auto simp: Insert_insertNodes depAt_insertNodes)

lemma leafAt_InsertAll:
  "InsertAll ds g = Some g' \<Longrightarrow>
     leafAt (GraphNodes g') p = (p \<in> (\<lambda>d. Split (Import d)) ` set ds \<or> leafAt (GraphNodes g) p)"
proof (induction ds arbitrary: g)
  case Nil then show ?case by simp
next
  case (Cons d ds)
  then obtain g1 where g1: "Insert d g = Some g1" "InsertAll ds g1 = Some g'"
    by (auto split: option.splits)
  from Cons.IH[OF g1(2)] leafAt_Insert[OF g1(1), of p] show ?case by auto
qed

lemma depAt_InsertAll_other:
  "InsertAll ds g = Some g' \<Longrightarrow> \<forall>e\<in>set ds. Split (Import e) \<noteq> p \<Longrightarrow>
     depAt (GraphNodes g') p = depAt (GraphNodes g) p"
proof (induction ds arbitrary: g)
  case Nil then show ?case by simp
next
  case (Cons d ds)
  then obtain g1 where g1: "Insert d g = Some g1" "InsertAll ds g1 = Some g'"
    by (auto split: option.splits)
  from Cons.prems(2) have "\<forall>e\<in>set ds. Split (Import e) \<noteq> p" "p \<noteq> Split (Import d)" by auto
  with Cons.IH[OF g1(2)] depAt_Insert[OF g1(1), of p] show ?case by simp
qed

lemma depAt_InsertAll_last:
  assumes "InsertAll (pre @ d # post) g = Some g'"
    and "\<forall>e\<in>set post. Split (Import e) \<noteq> Split (Import d)"
  shows "depAt (GraphNodes g') (Split (Import d)) = Some d"
proof -
  from assms(1) obtain g1 g2 where
    g: "InsertAll pre g = Some g1" "Insert d g1 = Some g2" "InsertAll post g2 = Some g'"
    by (auto simp: InsertAll_append split: option.splits)
  from depAt_InsertAll_other[OF g(3) assms(2)] depAt_Insert[OF g(2)]
  show ?thesis by simp
qed

lemma NewGraph_no_leaf [simp]: "\<not> leafAt (GraphNodes NewGraph) p"
  by (simp add: NewGraph_def leafAt_def)

subsection \<open>Splitting import paths\<close>

lemma joinSlash_Split: "joinSlash (Split s) = s"
proof (induction s)
  case Nil show ?case by simp
next
  case (Cons c cs)
  obtain w ws where w: "Split cs = w # ws" using Split_not_Nil[of cs] by (cases "Split cs") auto
  with Cons show ?case by (cases ws) auto
qed

lemma Split_inj: "Split a = Split b \<Longrightarrow> a = b"
  by (metis joinSlash_Split)

lemma Split_append_slash: "Split (a @ CHR ''/'' # b) = Split a @ Split b"
proof (induction a)
  case Nil show ?case by simp
next
  case (Cons c cs)
  obtain w ws where w: "Split cs = w # ws" using Split_not_Nil[of cs] by (cases "Split cs") auto
  with Cons show ?case by simp
qed

lemma Search_first_leaf:
  assumes g: "InsertAll (pre @ d # post) NewGraph = Some g"
    and last: "\<forall>e\<in>set post. Import e \<noteq> Import d"
    and nopre: "\<forall>e\<in>set (pre @ post). \<not> strict_prefix (Split (Import e)) (Split (Import d))"
    and q: "prefix (Split (Import d)) q"
  shows "\<exists>n. searchKeys (GraphNodes g) q = Some n \<and> Dependency n = Some d \<and> Leaf n"
proof -
  let ?ks = "Split (Import d)"
  have "\<forall>e\<in>set post. Split (Import e) \<noteq> ?ks" using last Split_inj by blast
  from depAt_InsertAll_last[OF g this] have dep: "depAt (GraphNodes g) ?ks = Some d" .
  then obtain n where n: "nodeAt (GraphNodes g) ?ks = Some n" "Dependency n = Some d"
    by (auto simp: depAt_def split: option.splits)
  have "leafAt (GraphNodes g) ?ks" using leafAt_InsertAll[OF g, of ?ks] by simp
  with n have leaf: "Leaf n" by (simp add: leafAt_def)
  have np: "\<forall>p'. p' \<noteq> [] \<longrightarrow> strict_prefix p' ?ks \<longrightarrow> \<not> leafAt (GraphNodes g) p'"
  proof (intro allI impI)
    fix p' :: "string list" assume p': "p' \<noteq> []" "strict_prefix p' ?ks"
    show "\<not> leafAt (GraphNodes g) p'"
    proof
      assume "leafAt (GraphNodes g) p'"
      with leafAt_InsertAll[OF g, of p'] obtain e where
        e: "e \<in> set (pre @ d # post)" "p' = Split (Import e)" by auto
      with p' have "e \<noteq> d" by auto
      with e have "e \<in> set (pre @ post)" by auto
      with nopre e p' show False by blast
    qed
  qed
  from q obtain r where "q = ?ks @ r" by (auto simp: prefix_def)
  with searchKeys_first_leaf[OF n(1) leaf np, of r] n(2) leaf show ?thesis by simp
qed


subsection \<open>Re-insertion\<close>

lemma map_update_same:
  "map_of al k = Some v0 \<Longrightarrow> f (k, v) = f (k, v0) \<Longrightarrow> map f (AList.update k v al) = map f al"
  by (induction al) (auto split: if_splits)

lemma shapeOf_eq: "shapeOf n = Shape (Key n) (Leaf n) (map (\<lambda>kc. (fst kc, shapeOf (snd kc))) (Nodes n))"
  by (cases n) simp

lemma subnodes_eq: "subnodes n = n # concat (map (\<lambda>kc. subnodes (snd kc)) (Nodes n))"
  by (cases n) simp

lemma reinsert_nodes:
  "leafAt nodes ks \<Longrightarrow> insertNodes nodes ks d = Some nodes' \<Longrightarrow>
     map (\<lambda>kc. (fst kc, shapeOf (snd kc))) nodes' = map (\<lambda>kc. (fst kc, shapeOf (snd kc))) nodes \<and>
     map (\<lambda>kc. map Leaf (subnodes (snd kc))) nodes' = map (\<lambda>kc. map Leaf (subnodes (snd kc))) nodes"
proof (induction ks arbitrary: nodes nodes')
  case Nil then show ?case by simp
next
  case (Cons k ks)
  from Cons.prems(1) obtain found where found: "map_of nodes k = Some found"
    by (auto simp: leafAt_Cons split: option.splits)
  show ?case
  proof (cases "ks = []")
    case True
    with Cons.prems(1) found have leaf: "Leaf found" by (simp add: leafAt_Cons)
    from Cons.prems(2) True found
    have n': "nodes' = AList.update k (Node (Key found) (Some d) True (Nodes found)) nodes"
      by (simp add: insertNodes_single)
    have 1: "shapeOf (Node (Key found) (Some d) True (Nodes found)) = shapeOf found"
      using leaf by (simp add: shapeOf_eq[of found])
    have 2: "map Leaf (subnodes (Node (Key found) (Some d) True (Nodes found))) = map Leaf (subnodes found)"
      using leaf by (simp add: subnodes_eq[of found])
    show ?thesis unfolding n'
      using map_update_same[OF found, of "\<lambda>kc. (fst kc, shapeOf (snd kc))"] 
            map_update_same[OF found, of "\<lambda>kc. map Leaf (subnodes (snd kc))"] 1 2
      by simp
  next
    case False
    with Cons.prems(1) found have sub: "leafAt (Nodes found) ks" by (simp add: leafAt_Cons)
    from Cons.prems(2) False found obtain cs where
      cs: "insertNodes (Nodes found) ks d = Some cs" and
      n': "nodes' = AList.update k (Node (Key found) (Dependency found) (Leaf found) cs) nodes"
      by (auto simp: insertNodes_step Let_def split: option.splits)
    from Cons.IH[OF sub cs] have
      ih1: "map (\<lambda>kc. (fst kc, shapeOf (snd kc))) cs = map (\<lambda>kc. (fst kc, shapeOf (snd kc))) (Nodes found)" and
      ih2: "map (\<lambda>kc. map Leaf (subnodes (snd kc))) cs = map (\<lambda>kc. map Leaf (subnodes (snd kc))) (Nodes found)"
      by blast+
    have 1: "shapeOf (Node (Key found) (Dependency found) (Leaf found) cs) = shapeOf found"
      using ih1 by (simp add: shapeOf_eq[of found])
    have "map Leaf (concat (map (\<lambda>kc. subnodes (snd kc)) cs)) =
          map Leaf (concat (map (\<lambda>kc. subnodes (snd kc)) (Nodes found)))"
      using ih2 by (simp add: map_concat comp_def)
    then have 2: "map Leaf (subnodes (Node (Key found) (Dependency found) (Leaf found) cs)) = map Leaf (subnodes found)"
      by (simp add: subnodes_eq[of found])
    show ?thesis unfolding n'
      using map_update_same[OF found, of "\<lambda>kc. (fst kc, shapeOf (snd kc))"] 
            map_update_same[OF found, of "\<lambda>kc. map Leaf (subnodes (snd kc))"] 1 2
      by simp
  qed
qed

lemma length_filter_map: "length (filter P xs) = length (filter id (map P xs))"
  by (induction xs) auto

lemma reinsert_graph:
  assumes "leafAt (GraphNodes g) (Split (Import d))" and "Insert d g = Some g'"
  shows "graphShape g' = graphShape g \<and> leafCount g' = leafCount g \<and>
         length (graphNodes g') = length (graphNodes g)"
proof -
  from assms(2) obtain ns where ns: "insertNodes (GraphNodes g) (Split (Import d)) d = Some ns"
    and g': "g' = Graph ns" by (auto simp: Insert_insertNodes)
  from reinsert_nodes[OF assms(1) ns] have
    1: "map (\<lambda>kc. (fst kc, shapeOf (snd kc))) ns = map (\<lambda>kc. (fst kc, shapeOf (snd kc))) (GraphNodes g)" and
    2: "map (\<lambda>kc. map Leaf (subnodes (snd kc))) ns = map (\<lambda>kc. map Leaf (subnodes (snd kc))) (GraphNodes g)"
    by blast+
  from 2 have 3: "map Leaf (graphNodes g') = map Leaf (graphNodes g)"
    by (simp add: graphNodes_def g' map_concat comp_def)
  then have "length (map Leaf (graphNodes g')) = length (map Leaf (graphNodes g))" by simp
  then have 4: "length (graphNodes g') = length (graphNodes g)" by simp
  from 3 have 5: "leafCount g' = leafCount g"
    unfolding leafCount_def length_filter_map[of Leaf] by simp
  from 1 4 5 show ?thesis by (simp add: graphShape_def g')
qed

subsection \<open>The leaf invariant\<close>

lemma set_update_subset: "set (AList.update k v al) \<subseteq> insert (k, v) (set al)"
  by (induction al) auto

lemma subnodes_found:
  "map_of nodes k = Some found \<Longrightarrow> m \<in> set (subnodes found) \<Longrightarrow>
     m \<in> set (concat (map (\<lambda>kc. subnodes (snd kc)) nodes))"
  by (auto dest!: map_of_SomeD intro!: bexI[of _ "(k, found)"])

lemma deepInsert_invariant:
  assumes leaf: "\<And>k cs. P (Node k (Some d) True cs)"
    and fresh: "\<And>k cs. P (Node k None False cs)"
    and children: "\<And>k dd l cs cs'. P (Node k dd l cs) \<Longrightarrow> P (Node k dd l cs')"
  shows "deepInsert nodes ks d = Some n' \<Longrightarrow>
   \<forall>m\<in>set (concat (map (\<lambda>kc. subnodes (snd kc)) nodes)). P m \<Longrightarrow>
   \<forall>m\<in>set (subnodes n'). P m"
proof (induction ks arbitrary: nodes n')
  case Nil then show ?case by simp
next
  case (Cons k ks)
  define node where "node = (case map_of nodes k of Some found \<Rightarrow> found | None \<Rightarrow> Node k None False [])"
  have sub: "\<forall>m\<in>set (subnodes node). P m"
  proof (cases "map_of nodes k")
    case None then show ?thesis using fresh by (simp add: node_def)
  next
    case (Some found)
    have "node = found" using Some by (simp add: node_def)
    then show ?thesis using Cons.prems(2) subnodes_found[OF Some] by blast
  qed
  then have Pn: "P (Node (Key node) (Dependency node) (Leaf node) (Nodes node))"
    and subc: "\<forall>m\<in>set (concat (map (\<lambda>kc. subnodes (snd kc)) (Nodes node))). P m"
    by (simp_all add: subnodes_eq[of node])
  show ?case
  proof (cases "ks = []")
    case True
    with Cons.prems(1) have "n' = Node (Key node) (Some d) True (Nodes node)"
      by (simp add: Let_def node_def)
    with subc leaf show ?thesis by simp
  next
    case False
    with Cons.prems(1) obtain child where
      child: "deepInsert (Nodes node) ks d = Some child" and
      n': "n' = Node (Key node) (Dependency node) (Leaf node) (AList.update (hd ks) child (Nodes node))"
      by (auto simp: Let_def node_def split: option.splits)
    from Cons.IH[OF child subc] have c: "\<forall>m\<in>set (subnodes child). P m" by blast
    have "\<forall>m\<in>set (concat (map (\<lambda>kc. subnodes (snd kc)) (AList.update (hd ks) child (Nodes node)))). P m"
      using set_update_subset[of "hd ks" child "Nodes node"] c subc by fastforce
    with children[OF Pn] show ?thesis by (simp add: n')
  qed
qed


lemma Insert_invariant:
  assumes "Insert d g = Some g'"
    and "\<forall>m\<in>set (graphNodes g). Leaf m = (Dependency m \<noteq> None)"
  shows "\<forall>m\<in>set (graphNodes g'). Leaf m = (Dependency m \<noteq> None)"
proof -
  let ?P = "\<lambda>m. Leaf m = (Dependency m \<noteq> None)"
  from assms(1) obtain n where n: "deepInsert (GraphNodes g) (Split (Import d)) d = Some n"
    and g': "g' = Graph (AList.update (hd (Split (Import d))) n (GraphNodes g))"
    by (auto simp: Insert_def Let_def split: option.splits)
  have "\<forall>m\<in>set (subnodes n). ?P m"
    by (rule deepInsert_invariant[of ?P, OF _ _ _ n]) (use assms(2) in \<open>simp_all add: graphNodes_def\<close>)
  then show ?thesis
    using set_update_subset[of "hd (Split (Import d))" n "GraphNodes g"] assms(2)
    by (fastforce simp: g' graphNodes_def)
qed

lemma InsertAll_invariant:
  "InsertAll ds g = Some g' \<Longrightarrow> \<forall>m\<in>set (graphNodes g). Leaf m = (Dependency m \<noteq> None) \<Longrightarrow>
   \<forall>m\<in>set (graphNodes g'). Leaf m = (Dependency m \<noteq> None)"
proof (induction ds arbitrary: g)
  case Nil then show ?case by simp
next
  case (Cons d ds)
  then obtain g1 where g1: "Insert d g = Some g1" "InsertAll ds g1 = Some g'"
    by (auto split: option.splits)
  from Cons.IH[OF g1(2) Insert_invariant[OF g1(1) Cons.prems(2)]] show ?case .
qed

section \<open>Properties of the configuration\<close>

lemma andThen_Ok [simp]: "andThen (Ok a, w) f = f a w"
  and andThen_Exit [simp]: "andThen (Exit n, w) f = (Exit n, w)"
  and andThen_Panic [simp]: "andThen (Panic, w) f = (Panic, w)"
  and andThen_Diverge [simp]: "andThen (Diverge, w) f = (Diverge, w)"
  by (simp_all add: andThen_def)

lemma andThen_cases:
  assumes "andThen m f = (r, w')"
  obtains (go) a w1 where "m = (Ok a, w1)" "f a w1 = (r, w')"
    | (exit) n where "m = (Exit n, w')" "r = Exit n"
    | (panic) "m = (Panic, w')" "r = Panic"
    | (diverge) "m = (Diverge, w')" "r = Diverge"
  using assms by (cases m; cases "fst m") (auto simp: andThen_def)

lemma checksum_result:
  "checksum X c w = (r, w') \<Longrightarrow>
     (\<exists>h c'. r = Ok (h, c') \<and> w' = w \<and> DepsTree c' = DepsTree c \<and> DevDepsTree c' = DevDepsTree c
        \<and> Path c' = Path c \<and> Repository c' = Repository c) \<or>
     (r = Exit 1 \<and> w' = emit EvFail w)"
  by (auto simp: checksum_def fail_def split: option.splits fileState.splits)

lemma modifiedChecksum_result:
  "modifiedChecksum X c w = (r, w') \<Longrightarrow>
     (\<exists>b c'. r = Ok (b, c') \<and> w' = w \<and> DepsTree c' = DepsTree c \<and> DevDepsTree c' = DevDepsTree c
        \<and> Path c' = Path c \<and> Repository c' = Repository c) \<or>
     (r = Exit 1 \<and> w' = emit EvFail w)"
  unfolding modifiedChecksum_def
  by (cases "files w (checksumPath w)")
     (auto elim!: andThen_cases dest!: checksum_result)

lemma LoadDependencyModel_dev_only:
  assumes "DepsTree c = None" and "DevDepsTree c = Some t" and "t \<noteq> []"
  shows "LoadDependencyModel X c w = (Panic, w) \<or>
         LoadDependencyModel X c w = (Exit 1, emit EvFail w)"
proof -
  obtain r w1 where m: "modifiedChecksum X c w = (r, w1)" by (cases "modifiedChecksum X c w")
  from modifiedChecksum_result[OF m] show ?thesis
  proof
    assume "\<exists>b c'. r = Ok (b, c') \<and> w1 = w \<and> DepsTree c' = DepsTree c \<and> DevDepsTree c' = DevDepsTree c
        \<and> Path c' = Path c \<and> Repository c' = Repository c"
    then obtain b c' where "r = Ok (b, c')" "w1 = w" "DepsTree c' = None" using assms by auto
    with m assms have "LoadDependencyModel X c w = (Panic, w)"
      by (simp add: LoadDependencyModel_def Let_def addDepsTree_def TreeKeys_def)
    then show ?thesis by simp
  next
    assume "r = Exit 1 \<and> w1 = emit EvFail w"
    with m assms have "LoadDependencyModel X c w = (Exit 1, emit EvFail w)"
      by (simp add: LoadDependencyModel_def Let_def)
    then show ?thesis by simp
  qed
qed

lemma WriteChecksum_Ok:
  assumes "WriteChecksum X c w = (Ok c1, w1)"
  shows "\<exists>h. checksum X c w = (Ok (h, c1), w) \<and>
           w1 = emit (EvWriteChecksum h) (w\<lparr>files := (files w)(checksumPath w := Content h)\<rparr>)"
proof -
  from assms obtain h c' w2 where ch: "checksum X c w = (Ok (h, c'), w2)"
    and rest: "(case WriteFile (checksumPath w2) h (files w2) of
              (True, f) \<Rightarrow> (Ok c', emit (EvWriteChecksum h) (w2\<lparr>files := f\<rparr>))
            | (False, f) \<Rightarrow> fail (w2\<lparr>files := f\<rparr>)) = (Ok c1, w1)"
    unfolding WriteChecksum_def by (auto elim!: andThen_cases)
  from checksum_result[OF ch] have w2: "w2 = w" by auto
  from rest show ?thesis unfolding w2 using ch w2
    by (auto simp: WriteFile_def fail_def split: fileState.splits prod.splits bool.splits)
qed

section \<open>Frames and traces\<close>

lemma step_refl [simp]: "step X p P w w"
  by (simp add: step_def)

lemma step_trans: "step X p P w w1 \<Longrightarrow> step X p P w1 w2 \<Longrightarrow> step X p P w w2"
  by (auto simp: step_def)

lemma step_mono: "step X p P w w' \<Longrightarrow> (\<And>e. P e \<Longrightarrow> Q e) \<Longrightarrow> step X p Q w w'"
  by (auto simp: step_def list_all_iff)

lemma step_emit: "P e \<Longrightarrow> step X p P w (emit e w)"
  by (simp add: step_def emit_def)

lemma step_graph [simp]: "step X p P w (w'\<lparr>importGraph := g\<rparr>) = step X p P w w'"
  and step_graph2 [simp]: "step X p P (w\<lparr>importGraph := g\<rparr>) w' = step X p P w w'"
  by (simp_all add: step_def)

lemma step_files: "(keepsFile X p \<Longrightarrow> f p = files w p) \<Longrightarrow> step X p P w (w\<lparr>files := f\<rparr>)"
  by (simp add: step_def)

lemma andThen_step:
  assumes "andThen m f = (r, w')"
    and "\<And>r1 w1. m = (r1, w1) \<Longrightarrow> step X p P w w1"
    and "\<And>a w1. m = (Ok a, w1) \<Longrightarrow> f a w1 = (r, w') \<Longrightarrow> step X p P w1 w'"
  shows "step X p P w w'"
  using assms(1)
proof (cases rule: andThen_cases)
  case (go a w1)
  from step_trans[OF assms(2)[OF go(1)] assms(3)[OF go]] show ?thesis .
qed (use assms(2) in blast)+

lemma fail_step: "P EvFail \<Longrightarrow> fail w = (r, w') \<Longrightarrow> step X p P w w'"
  by (auto simp: fail_def intro: step_emit)

lemma failf_step: "P (EvFailf s) \<Longrightarrow> failf s w = (r, w') \<Longrightarrow> step X p P w w'"
  by (auto simp: failf_def intro: step_emit)

lemma checksum_step: "P EvFail \<Longrightarrow> checksum X c w = (r, w') \<Longrightarrow> step X p P w w'"
  by (auto dest!: checksum_result intro: step_emit)

lemma modifiedChecksum_step: "P EvFail \<Longrightarrow> modifiedChecksum X c w = (r, w') \<Longrightarrow> step X p P w w'"
  by (auto dest!: modifiedChecksum_result intro: step_emit)

lemma NewConfig_step: "P EvFail \<Longrightarrow> NewConfig X dir w = (r, w') \<Longrightarrow> step X p P w w'"
  by (auto simp: NewConfig_def Let_def fail_def intro: step_emit
      split: fileState.splits option.splits toml.splits outcome.splits)

lemma keepsFileD:
  assumes "keepsFile X p"
  shows "Symlink X a b f = (s, f') \<Longrightarrow> f' p = f p"
    and "retrieve X d f = (ok, f') \<Longrightarrow> f' p = f p"
    and "DepGet X d f = (ok, f') \<Longrightarrow> f' p = f p"
    and "switchToBranchOrTag X d f = (ok, f') \<Longrightarrow> f' p = f p"
  using assms unfolding keepsFile_def by (metis snd_conv)+

lemma InitRepo_step:
  assumes "P EvFail" and "InitRepo X c w = (r, w')"
  shows "step X p P w w'"
proof (cases "Repository c = []")
  case True with assms(2) show ?thesis by (simp add: InitRepo_def)
next
  case False
  obtain s f where sym: "Symlink X (pwd w) (filepathJoin (filepathJoin (filepathJoin (pwd w) VendorDir) ''src'') (Repository c)) (files w) = (s, f)"
    by (cases "Symlink X (pwd w) (filepathJoin (filepathJoin (filepathJoin (pwd w) VendorDir) ''src'') (Repository c)) (files w)")
  have 1: "step X p P w (w\<lparr>files := f\<rparr>)"
    by (rule step_files) (use keepsFileD(1)[OF _ sym] in simp)
  have "step X p P (w\<lparr>files := f\<rparr>) w'"
    using assms False sym
    by (auto simp: InitRepo_def Let_def fail_def intro: step_emit
        split: symlinkResult.splits option.splits)
  with 1 show ?thesis by (rule step_trans)
qed

lemma Fetch_step:
  assumes "\<forall>e. loaderEvent e \<longrightarrow> P e" and "Fetch X b d w = (r, w')"
  shows "step X p P w w'"
proof -
  let ?w1 = "emit (EvFetch d b) w"
  have 1: "step X p P w ?w1" by (rule step_emit) (simp add: assms(1))
  show ?thesis
  proof (cases "\<not> b \<and> targetExists X d (files ?w1)")
    case True with assms(2) 1 show ?thesis by (auto simp: Fetch_def Let_def)
  next
    case False
    obtain ok f where rt: "retrieve X d (files ?w1) = (ok, f)" by (cases "retrieve X d (files ?w1)")
    have 2: "step X p P ?w1 (?w1\<lparr>files := f\<rparr>)"
      by (rule step_files) (use keepsFileD(2)[OF _ rt] in simp)
    have 3: "step X p P (?w1\<lparr>files := f\<rparr>) (emit (EvRetrieve d) (?w1\<lparr>files := f\<rparr>))"
      by (rule step_emit) (simp add: assms(1))
    have 4: "step X p P (emit (EvRetrieve d) (?w1\<lparr>files := f\<rparr>)) w'"
      using assms(2) False rt
      by (cases ok) (auto simp: Fetch_def Let_def fail_def assms(1) intro!: step_emit)
    from 1 2 3 4 show ?thesis by (blast intro: step_trans)
  qed
qed

lemma addDepsKeys_step:
  assumes P: "\<forall>e. loaderEvent e \<longrightarrow> P e"
  shows "addDepsKeys X t ks b deps pos w = (r, w') \<Longrightarrow> step X p P w w'"
proof (induction ks arbitrary: deps pos w)
  case Nil then show ?case by simp
next
  case (Cons k ks)
  show ?case
  proof (cases "\<exists>depTree i. map_of t k = Some (TTree depTree) \<and> map_of depTree ''import'' = Some (TString i)")
    case False
    with Cons.prems have "w' = w"
      by (auto split: option.splits toml.splits)
    then show ?thesis by simp
  next
    case True
    then obtain depTree i where e: "map_of t k = Some (TTree depTree)"
      "map_of depTree ''import'' = Some (TString i)" by blast
    define d where "d = entryDep X depTree i"
    let ?w1 = "emit (EvValidate d) w"
    have 1: "step X p P w ?w1" by (rule step_emit) (simp add: P)
    show ?thesis
    proof (cases "DepValidate X d")
      case (Some err)
      with Cons.prems e have "w' = ?w1" by (simp add: d_def Let_def)
      with 1 show ?thesis by simp
    next
      case None
      with Cons.prems e have run: "andThen (Fetch X b d ?w1) (\<lambda>_ w2.
                         if pos < length (Keys deps) \<and> pos < length (Imports deps)
                            \<and> pos < length (DepList deps)
                         then (case Insert d (importGraph w2) of
                                 None \<Rightarrow> (Panic, w2)
                               | Some g \<Rightarrow>
                                   addDepsKeys X t ks b
                                     (deps\<lparr>Keys := (Keys deps)[pos := k],
                                            Imports := (Imports deps)[pos := Import d],
                                            DepList := (DepList deps)[pos := Some d]\<rparr>)
                                     (pos + 1) (w2\<lparr>importGraph := g\<rparr>))
                         else (Panic, w2)) = (r, w')"
        unfolding d_def by (simp add: Let_def)
      have "step X p P ?w1 w'"
      proof (rule andThen_step[OF run])
        fix r1 w1 assume "Fetch X b d ?w1 = (r1, w1)"
        then show "step X p P ?w1 w1" using P by (rule Fetch_step[rotated])
      next
        fix a w1
        assume "(if pos < length (Keys deps) \<and> pos < length (Imports deps)
                            \<and> pos < length (DepList deps)
                         then (case Insert d (importGraph w1) of
                                 None \<Rightarrow> (Panic, w1)
                               | Some g \<Rightarrow>
                                   addDepsKeys X t ks b
                                     (deps\<lparr>Keys := (Keys deps)[pos := k],
                                            Imports := (Imports deps)[pos := Import d],
                                            DepList := (DepList deps)[pos := Some d]\<rparr>)
                                     (pos + 1) (w1\<lparr>importGraph := g\<rparr>))
                         else (Panic, w1)) = (r, w')"
        then show "step X p P w1 w'"
          by (auto split: if_splits option.splits dest!: Cons.IH)
      qed
      with 1 show ?thesis by (rule step_trans)
    qed
  qed
qed

lemma addDepsTree_step:
  assumes "\<forall>e. loaderEvent e \<longrightarrow> P e" and "addDepsTree X deps t b pos w = (r, w')"
  shows "step X p P w w'"
  using assms addDepsKeys_step[of P X _ _ _ _ _ w r w' p]
  by (auto simp: addDepsTree_def split: option.splits)

lemma LoadDependencyModel_step:
  assumes P: "\<forall>e. loaderEvent e \<longrightarrow> P e" and run: "LoadDependencyModel X c w = (r, w')"
  shows "step X p P w w'"
proof -
  have PF: "P EvFail" by (simp add: P)
  let ?n = "(case DepsTree c of None \<Rightarrow> 0 | Some t \<Rightarrow> length (map fst t))
                    + (case DevDepsTree c of None \<Rightarrow> 0 | Some t \<Rightarrow> length (map fst t))"
  show ?thesis
  proof (cases "?n = 0")
    case True with run show ?thesis by (simp add: LoadDependencyModel_def Let_def)
  next
    case False
    with run have run': "andThen (modifiedChecksum X c w) (\<lambda>(modified, c1) w1.
                 andThen (addDepsTree X \<lparr>Imports = replicate ?n [], Keys = replicate ?n [],
                         DepList = replicate ?n None\<rparr> (DepsTree c1) modified 0 w1) (\<lambda>(err, deps1) w2.
                   case err of
                     Some e \<Rightarrow> (Ok (Inl e, c1), w2)
                   | None \<Rightarrow>
                       (case TreeKeys (DepsTree c1) of
                          Ok keys \<Rightarrow>
                            andThen (addDepsTree X deps1 (DevDepsTree c1) modified (length keys) w2)
                              (\<lambda>(err, deps2) w3.
                                 case err of
                                   Some e \<Rightarrow> (Ok (Inl e, c1), w3)
                                 | None \<Rightarrow> (Ok (Inr (Some deps2), c1), w3))
                        | _ \<Rightarrow> (Panic, w2)))) = (r, w')"
      unfolding LoadDependencyModel_def Let_def by (simp only: if_False)
    show ?thesis
    proof (rule andThen_step[OF run'], goal_cases)
      case (1 r1 w1) then show ?case using PF by (rule modifiedChecksum_step[rotated])
    next
      case (2 a w1)
      obtain modified c1 where a: "a = (modified, c1)" by (cases a)
      from 2(2) show ?case unfolding a prod.case
      proof (rule andThen_step, goal_cases)
        case (1 r2 w2) then show ?case using P by (rule addDepsTree_step[rotated])
      next
        case (2 a2 w2)
        obtain err deps1 where a2: "a2 = (err, deps1)" by (cases a2)
        show ?case
        proof (cases err)
          case (Some e) with 2(2) a2 show ?thesis by simp
        next
          case None
          show ?thesis
          proof (cases "TreeKeys (DepsTree c1)")
            case (Ok keys)
            with 2(2) a2 None have "andThen (addDepsTree X deps1 (DevDepsTree c1) modified (length keys) w2)
                              (\<lambda>(err, deps2) w3.
                                 case err of
                                   Some e \<Rightarrow> (Ok (Inl e, c1), w3)
                                 | None \<Rightarrow> (Ok (Inr (Some deps2), c1), w3)) = (r, w')" by simp
            then show ?thesis
            proof (rule andThen_step, goal_cases)
              case (1 r3 w3) then show ?case using P by (rule addDepsTree_step[rotated])
            next
              case (2 a3 w3) then show ?case by (auto split: option.splits prod.splits)
            qed
          qed (use 2(2) a2 None in auto)
        qed
      qed
    qed
  qed
qed

lemma loader_resolution: "loaderEvent e \<Longrightarrow> resolutionEvent e"
  by (cases e) simp_all

lemma Get_step:
  assumes "\<forall>e. resolutionEvent e \<longrightarrow> P e" and "Get X d w = (r, w')"
  shows "step X p P w w'"
proof -
  obtain ok f where g: "DepGet X d (files w) = (ok, f)" by (cases "DepGet X d (files w)")
  have 1: "step X p P w (w\<lparr>files := f\<rparr>)"
    by (rule step_files) (use keepsFileD(3)[OF _ g] in simp)
  have 2: "step X p P (w\<lparr>files := f\<rparr>) (emit (EvGet d) (w\<lparr>files := f\<rparr>))"
    by (rule step_emit) (simp add: assms(1))
  have 3: "step X p P (emit (EvGet d) (w\<lparr>files := f\<rparr>)) w'"
    using assms(2) g by (cases ok) (auto simp: Get_def fail_def assms(1) intro!: step_emit)
  from 1 2 3 show ?thesis by (blast intro: step_trans)
qed

lemma SwitchToBranchOrTag_step:
  assumes "\<forall>e. resolutionEvent e \<longrightarrow> P e" and "SwitchToBranchOrTag X d w = (r, w')"
  shows "step X p P w w'"
proof -
  obtain ok f where g: "switchToBranchOrTag X d (files w) = (ok, f)"
    by (cases "switchToBranchOrTag X d (files w)")
  have 1: "step X p P w (w\<lparr>files := f\<rparr>)"
    by (rule step_files) (use keepsFileD(4)[OF _ g] in simp)
  have 2: "step X p P (w\<lparr>files := f\<rparr>) (emit (EvCheckout d) (w\<lparr>files := f\<rparr>))"
    by (rule step_emit) (simp add: assms(1))
  have 3: "step X p P (emit (EvCheckout d) (w\<lparr>files := f\<rparr>)) w'"
    using assms(2) g
    by (cases ok) (auto simp: SwitchToBranchOrTag_def fail_def assms(1) intro!: step_emit)
  from 1 2 3 show ?thesis by (blast intro: step_trans)
qed

lemma LoadTransitiveDeps_step:
  assumes P: "\<forall>e. resolutionEvent e \<longrightarrow> P e" and run: "LoadTransitiveDeps X d w = (r, w')"
  shows "step X p P w w'"
proof -
  have L: "\<forall>e. loaderEvent e \<longrightarrow> P e" using P loader_resolution by blast
  have PF: "P EvFail" using P by simp
  have 1: "step X p P w (emit (EvLoadTransitive d) w)"
    by (rule step_emit) (simp add: P)
  have "step X p P (emit (EvLoadTransitive d) w) w'"
    using run unfolding LoadTransitiveDeps_def
  proof (rule andThen_step, goal_cases)
    case (1 r1 w1) then show ?case using PF by (rule NewConfig_step[rotated])
  next
    case (2 c w1)
    from 2(2) show ?case
    proof (rule andThen_step, goal_cases)
      case (1 r2 w2) then show ?case using L by (rule LoadDependencyModel_step[rotated])
    next
      case (2 a w2) then show ?case by (auto split: prod.splits)
    qed
  qed
  with 1 show ?thesis by (rule step_trans)
qed

lemma visitList_step:
  assumes "\<And>d w r w'. routine d w = (r, w') \<Longrightarrow> step X p P w w'"
  shows "visitList ds routine w = (r, w') \<Longrightarrow> step X p P w w'"
proof (induction ds arbitrary: w)
  case Nil then show ?case by simp
next
  case (Cons d ds)
  from Cons.prems have "andThen (routine d w) (\<lambda>_ w'. visitList ds routine w') = (r, w')" by simp
  then show ?case
  proof (rule andThen_step, goal_cases)
    case (1 r1 w1) then show ?case by (rule assms)
  next
    case (2 a w1) then show ?case by (intro Cons.IH)
  qed
qed

lemma loadTransitiveDependencies_step:
  assumes P: "\<forall>e. resolutionEvent e \<longrightarrow> P e"
  shows "loadTransitiveDependencies X n deps w = (r, w') \<Longrightarrow> step X p P w w'"
proof (induction n arbitrary: deps w r w')
  case 0 then show ?case by simp
next
  case (Suc n)
  have PF: "\<And>s. P (EvFailf s)" using P by simp
  have ff: "step X p P v v'" if "failf s v = (q, v')" for s v v' and q :: "unit outcome"
    using that PF by (auto simp: failf_def intro: step_emit)
  from Suc.prems show ?case
    unfolding loadTransitiveDependencies.simps VisitDeps_def
  proof (rule visitList_step[rotated], goal_cases)
    case (1 dopt w0 r0 w0')
    show ?case
    proof (cases dopt)
      case None with 1 show ?thesis by simp
    next
      case (Some d)
      with 1 have "andThen (Get X d w0) (\<lambda>_ w1.
                andThen (if CheckoutType X d \<noteq> []
                         then SwitchToBranchOrTag X d w1 else (Ok (), w1)) (\<lambda>_ w2.
                  if fetch d then
                    andThen (LoadTransitiveDeps X d w2) (\<lambda>r w3.
                      case r of
                        Inl err \<Rightarrow> failf err w3
                      | Inr None \<Rightarrow> (Ok (), w3)
                      | Inr (Some transitive) \<Rightarrow> loadTransitiveDependencies X n transitive w3)
                  else (Ok (), w2))) = (r0, w0')" by simp
      then show ?thesis
      proof (rule andThen_step, goal_cases)
        case (1 r1 w1) then show ?case using P by (rule Get_step[rotated])
      next
        case (2 a w1)
        from 2(2) show ?case
        proof (rule andThen_step, goal_cases)
          case (1 r2 w2) then show ?case
            using P by (auto split: if_splits intro: SwitchToBranchOrTag_step)
        next
          case (2 a2 w2)
          show ?case
          proof (cases "fetch d")
            case False with 2(2) show ?thesis by simp
          next
            case True
            with 2(2) have "andThen (LoadTransitiveDeps X d w2) (\<lambda>r w3.
                      case r of
                        Inl err \<Rightarrow> failf err w3
                      | Inr None \<Rightarrow> (Ok (), w3)
                      | Inr (Some transitive) \<Rightarrow> loadTransitiveDependencies X n transitive w3) = (r0, w0')"
              by simp
            then show ?thesis
            proof (rule andThen_step, goal_cases)
              case (1 r3 w3) then show ?case using P by (rule LoadTransitiveDeps_step[rotated])
            next
              case (2 a3 w3)
              then show ?case
                by (auto split: sum.splits option.splits intro: ff Suc.IH)
            qed
          qed
        qed
      qed
    qed
  qed
qed

lemma loadConfiguration_step:
  assumes P: "\<forall>e. loaderEvent e \<longrightarrow> P e" and run: "loadConfiguration X dir w = (r, w')"
  shows "step X p P w w'"
proof -
  have PF: "P EvFail" "\<And>s. P (EvFailf s)" using P by simp_all
  have ff: "step X p P v v'" if "failf s v = (q, v')"
    for s v v' and q :: "(config \<times> dependencies option) outcome"
    using that PF by (auto simp: failf_def intro: step_emit)
  have "step X p P (w\<lparr>importGraph := NewGraph\<rparr>) w'"
    using run unfolding loadConfiguration_def
  proof (rule andThen_step, goal_cases)
    case (1 r1 w1) then show ?case using PF(1) by (rule NewConfig_step[rotated])
  next
    case (2 c w1)
    from 2(2) show ?case
    proof (rule andThen_step, goal_cases)
      case (1 r2 w2) then show ?case using PF(1) by (rule InitRepo_step[rotated])
    next
      case (2 a w2)
      from 2(2) show ?case
      proof (rule andThen_step, goal_cases)
        case (1 r3 w3) then show ?case using P by (rule LoadDependencyModel_step[rotated])
      next
        case (2 a3 w3) then show ?case
          by (auto split: prod.splits sum.splits intro: ff)
      qed
    qed
  qed
  then show ?thesis by simp
qed

lemma WriteChecksum_failure_step:
  assumes P: "P EvFail" and run: "WriteChecksum X c w = (r, w')" and nok: "\<forall>c'. r \<noteq> Ok c'"
  shows "step X p P w w'"
  using run unfolding WriteChecksum_def
proof (cases rule: andThen_cases)
  case (go a w1)
  obtain h c' where a: "a = (h, c')" by (cases a)
  from checksum_result[OF go(1)[unfolded a]] have w1: "w1 = w" by auto
  from go(2) nok have "w' = emit EvFail w"
    unfolding a w1
    by (auto simp: WriteFile_def fail_def split: fileState.splits)
  then show ?thesis using P by (simp add: step_emit)
next
  case (exit n) then show ?thesis using P by (auto intro: checksum_step)
next
  case panic then show ?thesis using P by (auto intro: checksum_step)
next
  case diverge then show ?thesis using P by (auto intro: checksum_step)
qed

lemma failWith_cases:
  "failWith errs w = (if errs = [] then (Ok (), w) else (Exit (int (length errs)), emit (EvFailWith errs) w))"
  by (simp add: failWith_def)

lemma notWrite_simps [simp]: "loaderEvent e \<Longrightarrow> notWrite e" "resolutionEvent e \<Longrightarrow> notWrite e"
  "notWrite (EvValidateSet errs)" "notWrite (EvFailWith errs)" "notWrite EvFail"
  by (cases e; simp add: notWrite_def)+

lemma loadDependencies_failure_step:
  assumes run: "loadDependencies X depth root w = (r, w')"
    and nok: "\<forall>c deps. r \<noteq> Ok (c, Some deps)"
  shows "step X p notWrite w w'"
  using run unfolding loadDependencies_def
proof (rule andThen_step, goal_cases)
  case (1 r1 w1) then show ?case by (rule loadConfiguration_step[rotated]) simp
next
  case (2 a w1)
  obtain config dependencies where a: "a = (config, dependencies)" by (cases a)
  show ?case
  proof (cases dependencies)
    case None with 2(2) a show ?thesis by simp
  next
    case (Some deps)
    define errs where "errs = DependenciesValidate X deps"
    from 2(2) a Some have run2: "andThen (failWith errs (emit (EvValidateSet errs) w1)) (\<lambda>_ w2.
                 andThen (loadTransitiveDependencies X depth deps w2) (\<lambda>_ w3.
                   andThen (WriteChecksum X config w3) (\<lambda>config' w4.
                     (Ok (config', Some deps), w4)))) = (r, w')"
      by (simp add: Let_def errs_def)
    have s1: "step X p notWrite w1 (emit (EvValidateSet errs) w1)" by (simp add: step_emit)
    have "step X p notWrite (emit (EvValidateSet errs) w1) w'"
      using run2
    proof (rule andThen_step, goal_cases)
      case (1 r2 w2) then show ?case
        by (auto simp: failWith_cases split: if_splits intro: step_emit)
    next
      case (2 u w2)
      from 2(2) show ?case
      proof (rule andThen_step, goal_cases)
        case (1 r3 w3) then show ?case by (rule loadTransitiveDependencies_step[rotated]) simp
      next
        case (2 u3 w3)
        from 2(2) show ?case
        proof (cases rule: andThen_cases)
          case (go c' w4) with nok show ?thesis by auto
        next
          case (exit n) then show ?thesis by (intro WriteChecksum_failure_step[of notWrite]) auto
        next
          case panic then show ?thesis by (intro WriteChecksum_failure_step[of notWrite]) auto
        next
          case diverge then show ?thesis by (intro WriteChecksum_failure_step[of notWrite]) auto
        qed
      qed
    qed
    with s1 show ?thesis by (rule step_trans)
  qed
qed

lemmas ex_run_defs = loadDependencies_def loadConfiguration_def NewConfig_def InitRepo_def
  LoadDependencyModel_def modifiedChecksum_def checksum_def checksumPath_def GopackChecksum_def
  addDepsTree_def TreeKeys_def Fetch_def entryDep_def filepathJoin_def Let_def emit_def
  fail_def failf_def failWith_def DependenciesValidate_def memberErrors_def
  exExt_def exWorld_def exWorldMarked_def exDeclarations_def exEntry_def exSetCheckout_def
  exCheckoutType_def exVendor_def exDuplicates_def exampleDep_def
  Insert_def NewGraph_def

lemma exExt_keepsFile: "keepsFile exExt ''/proj/.gopack/checksum''"
  by (simp add: keepsFile_def exExt_def exVendor_def)


section \<open>Exit status and validity of what is loaded\<close>

lemma exitsOne_simps [simp]: "exitsOne (Ok a)" "exitsOne (Exit n) = (n = 1)" "exitsOne Panic"
  "\<not> exitsOne Diverge"
  by (simp_all add: exitsOne_def)

lemma andThen_exitsOne:
  assumes "andThen m f = (r, w')"
    and "exitsOne (fst m)"
    and "\<And>a w1. m = (Ok a, w1) \<Longrightarrow> f a w1 = (r, w') \<Longrightarrow> exitsOne r"
  shows "exitsOne r"
  using assms(1)
proof (cases rule: andThen_cases)
  case (go a w1) then show ?thesis by (rule assms(3))
qed (use assms(2) in auto)

lemma checksum_exitsOne: "exitsOne (fst (checksum X c w))"
  using checksum_result[of X c w "fst (checksum X c w)" "snd (checksum X c w)"] by auto

lemma modifiedChecksum_exitsOne: "exitsOne (fst (modifiedChecksum X c w))"
  using modifiedChecksum_result[of X c w "fst (modifiedChecksum X c w)" "snd (modifiedChecksum X c w)"]
  by auto

lemma NewConfig_exitsOne: "exitsOne (fst (NewConfig X dir w))"
  by (auto simp: NewConfig_def Let_def fail_def
      split: fileState.splits option.splits toml.splits outcome.splits)

lemma InitRepo_exitsOne: "exitsOne (fst (InitRepo X c w))"
  by (auto simp: InitRepo_def Let_def fail_def split: prod.splits symlinkResult.splits option.splits)

lemma Fetch_exitsOne: "exitsOne (fst (Fetch X b d w))"
  by (auto simp: Fetch_def Let_def fail_def split: prod.splits bool.splits)

lemma addDepsKeys_exitsOne: "exitsOne (fst (addDepsKeys X t ks b deps pos w))"
proof (induction ks arbitrary: deps pos w)
  case Nil show ?case by simp
next
  case (Cons k ks)
  obtain r w' where run: "addDepsKeys X t (k # ks) b deps pos w = (r, w')"
    by (cases "addDepsKeys X t (k # ks) b deps pos w")
  show ?case
  proof (cases "\<exists>depTree i. map_of t k = Some (TTree depTree) \<and> map_of depTree ''import'' = Some (TString i)")
    case False
    then show ?thesis by (auto split: option.splits toml.splits)
  next
    case True
    then obtain depTree i where e: "map_of t k = Some (TTree depTree)"
      "map_of depTree ''import'' = Some (TString i)" by blast
    show ?thesis
    proof (cases "DepValidate X (entryDep X depTree i)")
      case (Some err) with e show ?thesis by (simp add: Let_def)
    next
      case None
      with run e have "andThen (Fetch X b (entryDep X depTree i) (emit (EvValidate (entryDep X depTree i)) w)) (\<lambda>_ w2.
                         if pos < length (Keys deps) \<and> pos < length (Imports deps)
                            \<and> pos < length (DepList deps)
                         then (case Insert (entryDep X depTree i) (importGraph w2) of
                                 None \<Rightarrow> (Panic, w2)
                               | Some g \<Rightarrow>
                                   addDepsKeys X t ks b
                                     (deps\<lparr>Keys := (Keys deps)[pos := k],
                                            Imports := (Imports deps)[pos := Import (entryDep X depTree i)],
                                            DepList := (DepList deps)[pos := Some (entryDep X depTree i)]\<rparr>)
                                     (pos + 1) (w2\<lparr>importGraph := g\<rparr>))
                         else (Panic, w2)) = (r, w')"
        by (simp add: Let_def)
      then have "exitsOne r"
      proof (rule andThen_exitsOne, goal_cases)
        case 1 show ?case by (rule Fetch_exitsOne)
      next
        case (2 a w1)
        then show ?case using Cons.IH
          by (auto split: if_splits option.splits) (metis fst_conv)
      qed
      with run show ?thesis by simp
    qed
  qed
qed

lemma addDepsTree_exitsOne: "exitsOne (fst (addDepsTree X deps t b pos w))"
  by (auto simp: addDepsTree_def addDepsKeys_exitsOne split: option.splits)

lemma LoadDependencyModel_exitsOne: "exitsOne (fst (LoadDependencyModel X c w))"
proof -
  obtain r w' where run: "LoadDependencyModel X c w = (r, w')" by (cases "LoadDependencyModel X c w")
  let ?n = "(case DepsTree c of None \<Rightarrow> 0 | Some t \<Rightarrow> length (map fst t))
                    + (case DevDepsTree c of None \<Rightarrow> 0 | Some t \<Rightarrow> length (map fst t))"
  have "exitsOne r"
  proof (cases "?n = 0")
    case True with run show ?thesis by (auto simp add: LoadDependencyModel_def Let_def)
  next
    case False
    with run have run': "andThen (modifiedChecksum X c w) (\<lambda>(modified, c1) w1.
                 andThen (addDepsTree X \<lparr>Imports = replicate ?n [], Keys = replicate ?n [],
                         DepList = replicate ?n None\<rparr> (DepsTree c1) modified 0 w1) (\<lambda>(err, deps1) w2.
                   case err of
                     Some e \<Rightarrow> (Ok (Inl e, c1), w2)
                   | None \<Rightarrow>
                       (case TreeKeys (DepsTree c1) of
                          Ok keys \<Rightarrow>
                            andThen (addDepsTree X deps1 (DevDepsTree c1) modified (length keys) w2)
                              (\<lambda>(err, deps2) w3.
                                 case err of
                                   Some e \<Rightarrow> (Ok (Inl e, c1), w3)
                                 | None \<Rightarrow> (Ok (Inr (Some deps2), c1), w3))
                        | _ \<Rightarrow> (Panic, w2)))) = (r, w')"
      unfolding LoadDependencyModel_def Let_def by (simp only: if_False)
    show ?thesis
    proof (rule andThen_exitsOne[OF run'], goal_cases)
      case 1 show ?case by (rule modifiedChecksum_exitsOne)
    next
      case (2 a w1)
      obtain modified c1 where a: "a = (modified, c1)" by (cases a)
      from 2(2) show ?case unfolding a prod.case
      proof (rule andThen_exitsOne, goal_cases)
        case 1 show ?case by (rule addDepsTree_exitsOne)
      next
        case (2 a2 w2)
        obtain err deps1 where a2: "a2 = (err, deps1)" by (cases a2)
        show ?case
        proof (cases err)
          case (Some e) with 2(2) a2 show ?thesis by auto
        next
          case None
          show ?thesis
          proof (cases "TreeKeys (DepsTree c1)")
            case (Ok keys)
            with 2(2) a2 None have "andThen (addDepsTree X deps1 (DevDepsTree c1) modified (length keys) w2)
                              (\<lambda>(err, deps2) w3.
                                 case err of
                                   Some e \<Rightarrow> (Ok (Inl e, c1), w3)
                                 | None \<Rightarrow> (Ok (Inr (Some deps2), c1), w3)) = (r, w')" by simp
            then show ?thesis
            proof (rule andThen_exitsOne, goal_cases)
              case 1 show ?case by (rule addDepsTree_exitsOne)
            next
              case (2 a3 w3) then show ?case by (auto split: option.splits prod.splits)
            qed
          next
            case (Exit n) with 2(2) a2 None show ?thesis by (auto simp: TreeKeys_def split: option.splits)
          next
            case Panic with 2(2) a2 None show ?thesis by auto
          next
            case Diverge with 2(2) a2 None show ?thesis by (auto simp: TreeKeys_def split: option.splits)
          qed
        qed
      qed
    qed
  qed
  with run show ?thesis by simp
qed

lemma loadConfiguration_exitsOne: "exitsOne (fst (loadConfiguration X dir w))"
proof -
  obtain r w' where run: "loadConfiguration X dir w = (r, w')" by (cases "loadConfiguration X dir w")
  have "exitsOne r"
    using run unfolding loadConfiguration_def
  proof (rule andThen_exitsOne, goal_cases)
    case 1 show ?case by (rule NewConfig_exitsOne)
  next
    case (2 c w1)
    from 2(2) show ?case
    proof (rule andThen_exitsOne, goal_cases)
      case 1 show ?case by (rule InitRepo_exitsOne)
    next
      case (2 a w2)
      from 2(2) show ?case
      proof (rule andThen_exitsOne, goal_cases)
        case 1 show ?case by (rule LoadDependencyModel_exitsOne)
      next
        case (2 a3 w3) then show ?case
          by (auto simp: failf_def split: prod.splits sum.splits)
      qed
    qed
  qed
  with run show ?thesis by simp
qed

lemma allValid_update:
  "allValid X ds \<Longrightarrow> DepValidate X d = None \<Longrightarrow> allValid X (ds[pos := Some d])"
  unfolding allValid_def list_all_iff
  using set_update_subset_insert[of ds pos "Some d"] by auto

lemma allValid_replicate [simp]: "allValid X (replicate n None)"
  by (simp add: allValid_def list_all_iff)

lemma addDepsKeys_valid:
  "addDepsKeys X t ks b deps pos w = (Ok (err, deps'), w') \<Longrightarrow> allValid X (DepList deps) \<Longrightarrow>
     allValid X (DepList deps') \<and> (err = None \<longrightarrow> (\<forall>k\<in>set ks. \<not> invalidEntry X t k))"
proof (induction ks arbitrary: deps pos w)
  case Nil then show ?case by simp
next
  case (Cons k ks)
  show ?case
  proof (cases "\<exists>depTree i. map_of t k = Some (TTree depTree) \<and> map_of depTree ''import'' = Some (TString i)")
    case False
    with Cons.prems(1) show ?thesis by (auto split: option.splits toml.splits)
  next
    case True
    then obtain depTree i where e: "map_of t k = Some (TTree depTree)"
      "map_of depTree ''import'' = Some (TString i)" by blast
    define d where "d = entryDep X depTree i"
    show ?thesis
    proof (cases "DepValidate X d")
      case (Some e') with Cons.prems e show ?thesis by (auto simp: d_def Let_def)
    next
      case None
      with Cons.prems(1) e have "andThen (Fetch X b d (emit (EvValidate d) w)) (\<lambda>_ w2.
                         if pos < length (Keys deps) \<and> pos < length (Imports deps)
                            \<and> pos < length (DepList deps)
                         then (case Insert d (importGraph w2) of
                                 None \<Rightarrow> (Panic, w2)
                               | Some g \<Rightarrow>
                                   addDepsKeys X t ks b
                                     (deps\<lparr>Keys := (Keys deps)[pos := k],
                                            Imports := (Imports deps)[pos := Import d],
                                            DepList := (DepList deps)[pos := Some d]\<rparr>)
                                     (pos + 1) (w2\<lparr>importGraph := g\<rparr>))
                         else (Panic, w2)) = (Ok (err, deps'), w')"
        unfolding d_def by (simp add: Let_def)
      then obtain w2 g where rec: "addDepsKeys X t ks b
                                     (deps\<lparr>Keys := (Keys deps)[pos := k],
                                            Imports := (Imports deps)[pos := Import d],
                                            DepList := (DepList deps)[pos := Some d]\<rparr>)
                                     (pos + 1) (w2\<lparr>importGraph := g\<rparr>) = (Ok (err, deps'), w')"
        by (cases rule: andThen_cases) (auto split: if_splits option.splits)
      have "allValid X (DepList (deps\<lparr>Keys := (Keys deps)[pos := k],
                                            Imports := (Imports deps)[pos := Import d],
                                            DepList := (DepList deps)[pos := Some d]\<rparr>))"
        using allValid_update[OF Cons.prems(2) None] by simp
      from Cons.IH[OF rec this] have ih: "allValid X (DepList deps')"
        "err = None \<longrightarrow> (\<forall>k\<in>set ks. \<not> invalidEntry X t k)" by blast+
      have "\<not> invalidEntry X t k" using e None by (simp add: invalidEntry_def d_def)
      with ih show ?thesis by simp
    qed
  qed
qed

lemma addDepsTree_valid:
  assumes "addDepsTree X deps t b pos w = (Ok (err, deps'), w')" and "allValid X (DepList deps)"
  shows "allValid X (DepList deps') \<and>
         (err = None \<longrightarrow> (case t of None \<Rightarrow> 0 | Some tr \<Rightarrow> length (filter (invalidEntry X tr) (map fst tr))) = 0)"
proof (cases t)
  case None with assms show ?thesis by (simp add: addDepsTree_def)
next
  case (Some tr)
  with assms(1) have "addDepsKeys X tr (map fst tr) b deps pos w = (Ok (err, deps'), w')"
    by (simp add: addDepsTree_def)
  from addDepsKeys_valid[OF this assms(2)] Some show ?thesis
    by (auto simp: filter_empty_conv)
qed

lemma LoadDependencyModel_valid:
  assumes run: "LoadDependencyModel X c w = (Ok (Inr dopt, c'), w')"
  shows "invalidCount X c = 0 \<and> (\<forall>deps. dopt = Some deps \<longrightarrow> allValid X (DepList deps))"
proof -
  let ?n = "(case DepsTree c of None \<Rightarrow> 0 | Some t \<Rightarrow> length (map fst t))
                    + (case DevDepsTree c of None \<Rightarrow> 0 | Some t \<Rightarrow> length (map fst t))"
  show ?thesis
  proof (cases "?n = 0")
    case True
    with run have "dopt = None" by (auto simp add: LoadDependencyModel_def Let_def)
    moreover from True have "invalidCount X c = 0"
      by (auto simp: invalidCount_def split: option.splits)
    ultimately show ?thesis by simp
  next
    case False
    with run have run': "andThen (modifiedChecksum X c w) (\<lambda>(modified, c1) w1.
                 andThen (addDepsTree X \<lparr>Imports = replicate ?n [], Keys = replicate ?n [],
                         DepList = replicate ?n None\<rparr> (DepsTree c1) modified 0 w1) (\<lambda>(err, deps1) w2.
                   case err of
                     Some e \<Rightarrow> (Ok (Inl e, c1), w2)
                   | None \<Rightarrow>
                       (case TreeKeys (DepsTree c1) of
                          Ok keys \<Rightarrow>
                            andThen (addDepsTree X deps1 (DevDepsTree c1) modified (length keys) w2)
                              (\<lambda>(err, deps2) w3.
                                 case err of
                                   Some e \<Rightarrow> (Ok (Inl e, c1), w3)
                                 | None \<Rightarrow> (Ok (Inr (Some deps2), c1), w3))
                        | _ \<Rightarrow> (Panic, w2)))) = (Ok (Inr dopt, c'), w')"
      unfolding LoadDependencyModel_def Let_def by (simp only: if_False)
    from run' obtain modified c1 w1 where mc: "modifiedChecksum X c w = (Ok (modified, c1), w1)"
      and r2: "andThen (addDepsTree X \<lparr>Imports = replicate ?n [], Keys = replicate ?n [],
                         DepList = replicate ?n None\<rparr> (DepsTree c1) modified 0 w1) (\<lambda>(err, deps1) w2.
                   case err of
                     Some e \<Rightarrow> (Ok (Inl e, c1), w2)
                   | None \<Rightarrow>
                       (case TreeKeys (DepsTree c1) of
                          Ok keys \<Rightarrow>
                            andThen (addDepsTree X deps1 (DevDepsTree c1) modified (length keys) w2)
                              (\<lambda>(err, deps2) w3.
                                 case err of
                                   Some e \<Rightarrow> (Ok (Inl e, c1), w3)
                                 | None \<Rightarrow> (Ok (Inr (Some deps2), c1), w3))
                        | _ \<Rightarrow> (Panic, w2))) = (Ok (Inr dopt, c'), w')"
      by (cases rule: andThen_cases) auto
    from modifiedChecksum_result[OF mc] have trees: "DepsTree c1 = DepsTree c" "DevDepsTree c1 = DevDepsTree c"
      by auto
    from r2 obtain err deps1 w2 where a1: "addDepsTree X \<lparr>Imports = replicate ?n [], Keys = replicate ?n [],
                         DepList = replicate ?n None\<rparr> (DepsTree c1) modified 0 w1 = (Ok (err, deps1), w2)"
      and r3: "(case err of
                     Some e \<Rightarrow> (Ok (Inl e, c1), w2)
                   | None \<Rightarrow>
                       (case TreeKeys (DepsTree c1) of
                          Ok keys \<Rightarrow>
                            andThen (addDepsTree X deps1 (DevDepsTree c1) modified (length keys) w2)
                              (\<lambda>(err, deps2) w3.
                                 case err of
                                   Some e \<Rightarrow> (Ok (Inl e, c1), w3)
                                 | None \<Rightarrow> (Ok (Inr (Some deps2), c1), w3))
                        | _ \<Rightarrow> (Panic, w2))) = (Ok (Inr dopt, c'), w')"
      by (cases rule: andThen_cases) auto
    from r3 have errN: "err = None" by (cases err) auto
    from addDepsTree_valid[OF a1] errN have v1: "allValid X (DepList deps1)"
      and i1: "(case DepsTree c1 of None \<Rightarrow> 0 | Some tr \<Rightarrow> length (filter (invalidEntry X tr) (map fst tr))) = 0"
      by simp_all
    from r3 errN obtain keys where keys: "TreeKeys (DepsTree c1) = Ok keys"
      by (cases "TreeKeys (DepsTree c1)") auto
    with r3 errN have r4: "andThen (addDepsTree X deps1 (DevDepsTree c1) modified (length keys) w2)
                              (\<lambda>(err, deps2) w3.
                                 case err of
                                   Some e \<Rightarrow> (Ok (Inl e, c1), w3)
                                 | None \<Rightarrow> (Ok (Inr (Some deps2), c1), w3)) = (Ok (Inr dopt, c'), w')"
      by simp
    then obtain err2 deps2 w3 where a2: "addDepsTree X deps1 (DevDepsTree c1) modified (length keys) w2 = (Ok (err2, deps2), w3)"
      and r5: "(case err2 of
                                   Some e \<Rightarrow> (Ok (Inl e, c1), w3)
                                 | None \<Rightarrow> (Ok (Inr (Some deps2), c1), w3)) = (Ok (Inr dopt, c'), w')"
      by (cases rule: andThen_cases) auto
    from r5 have err2N: "err2 = None" and dopt: "dopt = Some deps2" by (cases err2; auto)+
    from addDepsTree_valid[OF a2 v1] err2N have v2: "allValid X (DepList deps2)"
      and i2: "(case DevDepsTree c1 of None \<Rightarrow> 0 | Some tr \<Rightarrow> length (filter (invalidEntry X tr) (map fst tr))) = 0"
      by simp_all
    from i1 i2 trees have "invalidCount X c = 0" by (simp add: invalidCount_def)
    with v2 dopt show ?thesis by simp
  qed
qed

lemma NewConfig_trace: "NewConfig X dir w = (Ok c, w0) \<Longrightarrow> w0 = w \<and> Checksum c = None"
  by (auto simp: NewConfig_def Let_def fail_def
      split: fileState.splits option.splits toml.splits outcome.splits)

lemma loadConfiguration_valid:
  assumes run: "loadConfiguration X dir w = (Ok (c', dopt), w')"
  shows "\<exists>c. NewConfig X dir (w\<lparr>importGraph := NewGraph\<rparr>) = (Ok c, w\<lparr>importGraph := NewGraph\<rparr>) \<and>
              invalidCount X c = 0 \<and> (\<forall>deps. dopt = Some deps \<longrightarrow> allValid X (DepList deps))"
proof -
  from run obtain c w1 where nc: "NewConfig X dir (w\<lparr>importGraph := NewGraph\<rparr>) = (Ok c, w1)"
    and r1: "andThen (InitRepo X c w1) (\<lambda>_ w2.
         andThen (LoadDependencyModel X c w2) (\<lambda>(r, config') w3.
           case r of
             Inl err \<Rightarrow> failf err w3
           | Inr dependencies \<Rightarrow> (Ok (config', dependencies), w3))) = (Ok (c', dopt), w')"
    unfolding loadConfiguration_def by (cases rule: andThen_cases) auto
  from r1 obtain u w2 where "InitRepo X c w1 = (Ok u, w2)"
    and r2: "andThen (LoadDependencyModel X c w2) (\<lambda>(r, config') w3.
           case r of
             Inl err \<Rightarrow> failf err w3
           | Inr dependencies \<Rightarrow> (Ok (config', dependencies), w3)) = (Ok (c', dopt), w')"
    by (cases rule: andThen_cases) auto
  from r2 obtain res c2 w3 where ldm: "LoadDependencyModel X c w2 = (Ok (res, c2), w3)"
    and r3: "(case res of
             Inl err \<Rightarrow> failf err w3
           | Inr dependencies \<Rightarrow> (Ok (c2, dependencies), w3)) = (Ok (c', dopt), w')"
    by (cases rule: andThen_cases) auto
  from r3 have res: "res = Inr dopt" by (cases res) (auto simp: failf_def)
  from LoadDependencyModel_valid[OF ldm[unfolded res]] NewConfig_trace[OF nc] nc show ?thesis by auto
qed

lemma allValid_memberErrors: "allValid X ds \<Longrightarrow> memberErrors X ds = []"
  by (induction ds) (auto simp: allValid_def memberErrors_def split: option.splits)

lemma Fetch_trace:
  assumes "Fetch X mc d w0 = (r1, w1)"
  shows "prefix (trace w0 @ [EvFetch d mc]) (trace w1) \<and>
         (mc \<longrightarrow> prefix (trace w0 @ [EvFetch d True, EvRetrieve d]) (trace w1))"
  using assms
  by (auto simp: Fetch_def Let_def emit_def fail_def prefix_def split: if_splits prod.splits bool.splits)

lemma step_prefix: "step X p P w w' \<Longrightarrow> prefix (trace w) (trace w')"
  by (auto simp: step_def)

lemma addDepsKeys_prefix:
  "addDepsKeys X t ks mc deps pos w = (r, w') \<Longrightarrow> prefix (trace w) (trace w')"
  using addDepsKeys_step[of "\<lambda>e. True" X t ks mc deps pos w r w' "[]"]
  by (auto dest: step_prefix)

lemma addDepsKeys_fetches_first:
  assumes e: "map_of t k = Some (TTree depTree)" "map_of depTree ''import'' = Some (TString i)"
    and valid: "DepValidate X (entryDep X depTree i) = None"
    and run: "addDepsKeys X t (k # ks) mc deps pos v = (r1, v')"
  shows "prefix (trace v @ [EvValidate (entryDep X depTree i), EvFetch (entryDep X depTree i) mc]) (trace v') \<and>
         (mc \<longrightarrow> prefix (trace v @ [EvValidate (entryDep X depTree i),
                      EvFetch (entryDep X depTree i) True, EvRetrieve (entryDep X depTree i)]) (trace v'))"
proof -
  define d where "d = entryDep X depTree i"
  let ?v1 = "emit (EvValidate d) v"
  from run e valid have run': "andThen (Fetch X mc d ?v1) (\<lambda>_ w2.
                         if pos < length (Keys deps) \<and> pos < length (Imports deps)
                            \<and> pos < length (DepList deps)
                         then (case Insert d (importGraph w2) of
                                 None \<Rightarrow> (Panic, w2)
                               | Some g \<Rightarrow>
                                   addDepsKeys X t ks mc
                                     (deps\<lparr>Keys := (Keys deps)[pos := k],
                                            Imports := (Imports deps)[pos := Import d],
                                            DepList := (DepList deps)[pos := Some d]\<rparr>)
                                     (pos + 1) (w2\<lparr>importGraph := g\<rparr>))
                         else (Panic, w2)) = (r1, v')"
    unfolding d_def by (simp add: Let_def)
  obtain rf wf where f: "Fetch X mc d ?v1 = (rf, wf)" by (cases "Fetch X mc d ?v1")
  have pf: "prefix (trace wf) (trace v')"
    using run'
  proof (cases rule: andThen_cases)
    case (go a w2)
    with f have "w2 = wf" by simp
    with go(2) show ?thesis
      by (auto split: if_splits option.splits dest!: addDepsKeys_prefix)
  qed (use f in auto)
  from Fetch_trace[OF f] have
    "prefix (trace ?v1 @ [EvFetch d mc]) (trace wf)"
    "mc \<longrightarrow> prefix (trace ?v1 @ [EvFetch d True, EvRetrieve d]) (trace wf)" by blast+
  with pf have "prefix (trace ?v1 @ [EvFetch d mc]) (trace v')"
    "mc \<longrightarrow> prefix (trace ?v1 @ [EvFetch d True, EvRetrieve d]) (trace v')"
    by (auto intro: prefix_order.trans)
  then show ?thesis by (simp add: emit_def d_def)
qed

lemma WriteChecksum_prefix: "WriteChecksum X c w = (r, w') \<Longrightarrow> prefix (trace w) (trace w')"
proof (cases "\<exists>c'. r = Ok c'")
  case True
  assume "WriteChecksum X c w = (r, w')"
  with True WriteChecksum_Ok[of X c w _ w'] show ?thesis by (auto simp: emit_def)
next
  case False
  assume "WriteChecksum X c w = (r, w')"
  from WriteChecksum_failure_step[of "\<lambda>e. True", OF _ this, of "[]"] False show ?thesis
    by (auto dest: step_prefix)
qed

lemma loadDependencies_trace:
  assumes run: "loadDependencies X depth root w = (r, w')"
  shows "\<exists>l1 l2. trace w' = trace w @ l1 @ l2 \<and> list_all loaderEvent l1 \<and>
           (l2 = [] \<or> (\<exists>errs l3. l2 = EvValidateSet errs # l3 \<and> (errs \<noteq> [] \<longrightarrow> l3 = [EvFailWith errs])))"
proof -
  obtain r1 w1 where lc: "loadConfiguration X root w = (r1, w1)"
    by (cases "loadConfiguration X root w")
  from loadConfiguration_step[of loaderEvent, OF _ lc, of "[]"]
  obtain l1 where l1: "trace w1 = trace w @ l1" "list_all loaderEvent l1" by (auto simp: step_def)
  have "\<exists>l2. trace w' = trace w1 @ l2 \<and>
           (l2 = [] \<or> (\<exists>errs l3. l2 = EvValidateSet errs # l3 \<and> (errs \<noteq> [] \<longrightarrow> l3 = [EvFailWith errs])))"
  proof (cases "\<exists>c deps. r1 = Ok (c, Some deps)")
    case False
    with run lc have "w' = w1"
      by (cases r1) (auto simp: loadDependencies_def split: option.splits)
    then show ?thesis by simp
  next
    case True
    then obtain c deps where r1: "r1 = Ok (c, Some deps)" by blast
    define errs where "errs = DependenciesValidate X deps"
    let ?w2 = "emit (EvValidateSet errs) w1"
    from run lc r1 have run2: "andThen (failWith errs ?w2) (\<lambda>_ w2.
                 andThen (loadTransitiveDependencies X depth deps w2) (\<lambda>_ w3.
                   andThen (WriteChecksum X c w3) (\<lambda>config' w4.
                     (Ok (config', Some deps), w4)))) = (r, w')"
      by (simp add: loadDependencies_def Let_def errs_def)
    show ?thesis
    proof (cases "errs = []")
      case False
      with run2 have "w' = emit (EvFailWith errs) ?w2" by (simp add: failWith_cases)
      then have "trace w' = trace w1 @ EvValidateSet errs # [EvFailWith errs]" by (simp add: emit_def)
      then show ?thesis by blast
    next
      case True
      with run2 have run3: "andThen (loadTransitiveDependencies X depth deps ?w2) (\<lambda>_ w3.
                   andThen (WriteChecksum X c w3) (\<lambda>config' w4.
                     (Ok (config', Some deps), w4))) = (r, w')"
        by (simp add: failWith_cases)
      have "prefix (trace ?w2) (trace w')"
        using run3
      proof (cases rule: andThen_cases)
        case (go a w3)
        from loadTransitiveDependencies_step[of "\<lambda>e. True", OF _ go(1), of "[]"]
        have 1: "prefix (trace ?w2) (trace w3)" by (auto dest: step_prefix)
        from go(2) have "prefix (trace w3) (trace w')"
          by (cases rule: andThen_cases) (auto dest: WriteChecksum_prefix)
        with 1 show ?thesis by (rule prefix_order.trans)
      next
        case (exit n)
        from loadTransitiveDependencies_step[of "\<lambda>e. True", OF _ exit(1), of "[]"]
        show ?thesis by (auto dest: step_prefix)
      next
        case panic
        from loadTransitiveDependencies_step[of "\<lambda>e. True", OF _ panic(1), of "[]"]
        show ?thesis by (auto dest: step_prefix)
      next
        case diverge
        from loadTransitiveDependencies_step[of "\<lambda>e. True", OF _ diverge(1), of "[]"]
        show ?thesis by (auto dest: step_prefix)
      qed
      then obtain l3 where "trace w' = trace ?w2 @ l3" by (auto simp: prefix_def)
      then have "trace w' = trace w1 @ EvValidateSet errs # l3" by (simp add: emit_def)
      with True show ?thesis by blast
    qed
  qed
  with l1 show ?thesis by auto
qed

lemma loader_not_pipeline: "loaderEvent e \<Longrightarrow> \<not> pipelineEvent e"
  by (cases e) simp_all

text \<open>
  The depth bound only cuts recursions that are too deep: a traversal that has ended
  within the bound ends the same way within any larger one.
\<close>

lemma resolveLevel_more_depth:
  "resolveLevel X n ds w = (r, w') \<Longrightarrow> r \<noteq> Diverge \<Longrightarrow> resolveLevel X (Suc n) ds w = (r, w')"
proof (induction X n ds w arbitrary: r w' rule: resolveLevel.induct)
  case (1 X n w) then show ?case by simp
next
  case (2 X n siblings w) then show ?case by simp
next
  case (3 X n d siblings w)
  obtain r1 w1 where g: "Get X d w = (r1, w1)" by (cases "Get X d w")
  obtain r2 w2 where sw: "(if CheckoutType X d \<noteq> []
                         then SwitchToBranchOrTag X d w1 else (Ok (), w1)) = (r2, w2)"
    by (cases "if CheckoutType X d \<noteq> [] then SwitchToBranchOrTag X d w1 else (Ok (), w1)")
  obtain r3 w3 where lt: "LoadTransitiveDeps X d w2 = (r3, w3)"
    by (cases "LoadTransitiveDeps X d w2")
  show ?case
  proof (cases r1)
    case (Ok u1)
    show ?thesis
    proof (cases r2)
      case Ok2: (Ok u2)
      show ?thesis
      proof (cases "fetch d")
        case False
        with "3.prems" g Ok sw Ok2 have "resolveLevel X n siblings w2 = (r, w')" by simp
        from "3.IH"(4)[OF g[unfolded Ok, symmetric] _ sw[symmetric, unfolded Ok2] _ False this "3.prems"(2)]
        show ?thesis using g Ok sw Ok2 False by simp
      next
        case True
        show ?thesis
        proof (cases r3)
          case Ok3: (Ok res)
          show ?thesis
          proof (cases res)
            case (Inl err)
            then show ?thesis using "3.prems" g Ok sw Ok2 True lt Ok3 by simp
          next
            case (Inr topt)
            show ?thesis
            proof (cases topt)
              case None
              with "3.prems" g Ok sw Ok2 True lt Ok3 Inr
              have "resolveLevel X n siblings w3 = (r, w')" by simp
              from "3.IH"(1)[OF g[unfolded Ok, symmetric] _ sw[symmetric, unfolded Ok2] _ True
                  lt[unfolded Ok3 Inr None, symmetric] _ _ _ this "3.prems"(2)]
              show ?thesis using g Ok sw Ok2 True lt Ok3 Inr None by simp
            next
              case Some': (Some t)
              show ?thesis
              proof (cases n)
                case 0
                then show ?thesis using "3.prems" g Ok sw Ok2 True lt Ok3 Inr Some' by simp
              next
                case (Suc m)
                obtain r4 w4 where rl: "resolveLevel X m (DepList t) w3 = (r4, w4)"
                  by (cases "resolveLevel X m (DepList t) w3")
                show ?thesis
                proof (cases r4)
                  case Ok4: (Ok u4)
                  with "3.prems" g Ok sw Ok2 True lt Ok3 Inr Some' Suc rl
                  have sib: "resolveLevel X n siblings w4 = (r, w')" by simp
                  have a: "resolveLevel X (Suc m) (DepList t) w3 = (r4, w4)"
                    using "3.IH"(2)[OF g[unfolded Ok, symmetric] _ sw[symmetric, unfolded Ok2] _ True
                      lt[unfolded Ok3 Inr Some', symmetric] _ _ _ Suc rl] Ok4 by simp
                  have b: "resolveLevel X (Suc n) siblings w4 = (r, w')"
                    using "3.IH"(3)[OF g[unfolded Ok, symmetric] _ sw[symmetric, unfolded Ok2] _ True
                      lt[unfolded Ok3 Inr Some', symmetric] _ _ _ Suc rl[unfolded Ok4, symmetric] _ sib "3.prems"(2)]
                    by simp
                  show ?thesis using g Ok sw Ok2 True lt Ok3 Inr Some' Suc a b Ok4 by simp
                next
                  case (Exit c)
                  have a: "resolveLevel X (Suc m) (DepList t) w3 = (r4, w4)"
                    using "3.IH"(2)[OF g[unfolded Ok, symmetric] _ sw[symmetric, unfolded Ok2] _ True
                      lt[unfolded Ok3 Inr Some', symmetric] _ _ _ Suc rl] Exit by simp
                  show ?thesis using "3.prems" g Ok sw Ok2 True lt Ok3 Inr Some' Suc rl a Exit by auto
                next
                  case Panic
                  have a: "resolveLevel X (Suc m) (DepList t) w3 = (r4, w4)"
                    using "3.IH"(2)[OF g[unfolded Ok, symmetric] _ sw[symmetric, unfolded Ok2] _ True
                      lt[unfolded Ok3 Inr Some', symmetric] _ _ _ Suc rl] Panic by simp
                  show ?thesis using "3.prems" g Ok sw Ok2 True lt Ok3 Inr Some' Suc rl a Panic by auto
                next
                  case Diverge
                  then show ?thesis using "3.prems" g Ok sw Ok2 True lt Ok3 Inr Some' Suc rl by simp
                qed
              qed
            qed
          qed
        qed (use "3.prems" g Ok sw Ok2 True lt in auto)
      qed
    qed (use "3.prems" g Ok sw in auto)
  qed (use "3.prems" g in auto)
qed

lemma addDepsKeys_append:
  "addDepsKeys X t (ks1 @ ks2) mc deps pos w =
     (case addDepsKeys X t ks1 mc deps pos w of
        (Ok (None, deps1), w1) \<Rightarrow> addDepsKeys X t ks2 mc deps1 (pos + length ks1) w1
      | other \<Rightarrow> other)"
proof (induction ks1 arbitrary: deps pos w)
  case Nil show ?case by simp
next
  case (Cons k ks1)
  show ?case
  proof (cases "entryOf X t k")
    case None
    then show ?thesis
      by (auto simp: entryOf_def split: option.splits toml.splits)
  next
    case (Some d)
    then obtain depTree i where e: "map_of t k = Some (TTree depTree)"
      "map_of depTree ''import'' = Some (TString i)" and d: "d = entryDep X depTree i"
      by (auto simp: entryOf_def split: option.splits toml.splits)
    show ?thesis
    proof (cases "DepValidate X d")
      case (Some err) with e d show ?thesis by (simp add: Let_def)
    next
      case None
      obtain rf wf where f: "Fetch X mc d (emit (EvValidate d) w) = (rf, wf)"
        by (cases "Fetch X mc d (emit (EvValidate d) w)")
      show ?thesis
      proof (cases rf)
        case (Ok u)
        show ?thesis
        proof (cases "pos < length (Keys deps) \<and> pos < length (Imports deps)
                            \<and> pos < length (DepList deps)")
          case False
          then show ?thesis using e d None f Ok by (auto simp: Let_def)
        next
          case True
          show ?thesis
          proof (cases "Insert d (importGraph wf)")
            case None' : None
            then show ?thesis using e d None f Ok True by (simp add: Let_def)
          next
            case (Some g)
            have A: "addDepsKeys X t ((k # ks1) @ ks2) mc deps pos w =
                  addDepsKeys X t (ks1 @ ks2) mc
                                     (deps\<lparr>Keys := (Keys deps)[pos := k],
                                            Imports := (Imports deps)[pos := Import d],
                                            DepList := (DepList deps)[pos := Some d]\<rparr>)
                                     (pos + 1) (wf\<lparr>importGraph := g\<rparr>)"
              using e d None f Ok True Some by (simp add: Let_def)
            have B: "addDepsKeys X t (k # ks1) mc deps pos w =
                  addDepsKeys X t ks1 mc
                                     (deps\<lparr>Keys := (Keys deps)[pos := k],
                                            Imports := (Imports deps)[pos := Import d],
                                            DepList := (DepList deps)[pos := Some d]\<rparr>)
                                     (pos + 1) (wf\<lparr>importGraph := g\<rparr>)"
              using e d None f Ok True Some by (simp add: Let_def)
            have len: "pos + length (k # ks1) = pos + 1 + length ks1" by simp
            show ?thesis unfolding A B len Cons.IH by (rule refl)
          qed
        qed
      qed (use e d None f in \<open>simp_all add: Let_def\<close>)
    qed
  qed
qed

lemma addDepsKeys_rejected:
  assumes "entryOf X t k = Some d" and "DepValidate X d = Some err"
  shows "addDepsKeys X t (k # ks) mc deps pos w = (Ok (Some err, deps), emit (EvValidate d) w)"
  using assms by (auto simp: entryOf_def Let_def split: option.splits toml.splits)

lemma addDepsKeys_reaches_rejected:
  assumes "addDepsKeys X t ks1 mc deps pos w = (Ok (None, deps1), w1)"
    and "entryOf X t k = Some d" and "DepValidate X d = Some err"
  shows "addDepsKeys X t (ks1 @ k # ks2) mc deps pos w = (Ok (Some err, deps1), emit (EvValidate d) w1)"
  unfolding addDepsKeys_append using assms(1) addDepsKeys_rejected[OF assms(2,3)] by simp

lemma LoadDependencyModel_unfold:
  assumes gate: "modifiedChecksum X c w1 = (Ok (mc, c1), w2)" and n: "totalDeps c \<noteq> 0"
  shows "LoadDependencyModel X c w1 =
     andThen (addDepsTree X (freshDeps c) (DepsTree c) mc 0 w2) (\<lambda>(err, deps1) w2.
                   case err of
                     Some e \<Rightarrow> (Ok (Inl e, c1), w2)
                   | None \<Rightarrow>
                       (case TreeKeys (DepsTree c) of
                          Ok keys \<Rightarrow>
                            andThen (addDepsTree X deps1 (DevDepsTree c) mc (length keys) w2)
                              (\<lambda>(err, deps2) w3.
                                 case err of
                                   Some e \<Rightarrow> (Ok (Inl e, c1), w3)
                                 | None \<Rightarrow> (Ok (Inr (Some deps2), c1), w3))
                        | _ \<Rightarrow> (Panic, w2)))"
proof -
  from modifiedChecksum_result[OF gate] have trees: "DepsTree c1 = DepsTree c" "DevDepsTree c1 = DevDepsTree c"
    by auto
  have "LoadDependencyModel X c w1 = andThen (modifiedChecksum X c w1) (\<lambda>(modified, c1) w1.
                 andThen (addDepsTree X (freshDeps c) (DepsTree c1) modified 0 w1) (\<lambda>(err, deps1) w2.
                   case err of
                     Some e \<Rightarrow> (Ok (Inl e, c1), w2)
                   | None \<Rightarrow>
                       (case TreeKeys (DepsTree c1) of
                          Ok keys \<Rightarrow>
                            andThen (addDepsTree X deps1 (DevDepsTree c1) modified (length keys) w2)
                              (\<lambda>(err, deps2) w3.
                                 case err of
                                   Some e \<Rightarrow> (Ok (Inl e, c1), w3)
                                 | None \<Rightarrow> (Ok (Inr (Some deps2), c1), w3))
                        | _ \<Rightarrow> (Panic, w2))))"
    using n unfolding LoadDependencyModel_def Let_def freshDeps_def totalDeps_def
    by (simp only: if_False)
  also have "\<dots> = andThen (addDepsTree X (freshDeps c) (DepsTree c1) mc 0 w2) (\<lambda>(err, deps1) w2.
                   case err of
                     Some e \<Rightarrow> (Ok (Inl e, c1), w2)
                   | None \<Rightarrow>
                       (case TreeKeys (DepsTree c1) of
                          Ok keys \<Rightarrow>
                            andThen (addDepsTree X deps1 (DevDepsTree c1) mc (length keys) w2)
                              (\<lambda>(err, deps2) w3.
                                 case err of
                                   Some e \<Rightarrow> (Ok (Inl e, c1), w3)
                                 | None \<Rightarrow> (Ok (Inr (Some deps2), c1), w3))
                        | _ \<Rightarrow> (Panic, w2)))"
    unfolding gate by simp
  finally show ?thesis unfolding trees .
qed

lemma totalDeps_main: "DepsTree c = Some t \<Longrightarrow> map fst t = ks1 @ k # ks2 \<Longrightarrow> totalDeps c \<noteq> 0"
  by (cases t) (auto simp: totalDeps_def)

lemma totalDeps_dev: "DevDepsTree c = Some t \<Longrightarrow> map fst t = ks1 @ k # ks2 \<Longrightarrow> totalDeps c \<noteq> 0"
  by (cases t) (auto simp: totalDeps_def)

lemma allValid_freshDeps [simp]: "allValid X (DepList (freshDeps c))"
  by (simp add: freshDeps_def)

lemma LoadDependencyModel_main_rejected:
  assumes gate: "modifiedChecksum X c w1 = (Ok (mc, c1), w2)"
    and t: "DepsTree c = Some t" and keys: "map fst t = ks1 @ k # ks2"
    and pre: "addDepsKeys X t ks1 mc (freshDeps c) 0 w2 = (Ok (None, deps1), w3)"
    and entry: "entryOf X t k = Some d" and rej: "DepValidate X d = Some err"
  shows "LoadDependencyModel X c w1 = (Ok (Inl err, c1), emit (EvValidate d) w3)"
proof -
  have "addDepsTree X (freshDeps c) (DepsTree c) mc 0 w2 = (Ok (Some err, deps1), emit (EvValidate d) w3)"
    unfolding addDepsTree_def t keys option.case
    by (rule addDepsKeys_reaches_rejected[OF pre entry rej])
  then show ?thesis
    unfolding LoadDependencyModel_unfold[OF gate totalDeps_main[OF t keys]] by simp
qed

lemma LoadDependencyModel_dev_rejected:
  assumes gate: "modifiedChecksum X c w1 = (Ok (mc, c1), w2)"
    and t0: "DepsTree c = Some t0"
    and main: "addDepsKeys X t0 (map fst t0) mc (freshDeps c) 0 w2 = (Ok (None, depsA), wA)"
    and t: "DevDepsTree c = Some t" and keys: "map fst t = ks1 @ k # ks2"
    and pre: "addDepsKeys X t ks1 mc depsA (length t0) wA = (Ok (None, deps1), w3)"
    and entry: "entryOf X t k = Some d" and rej: "DepValidate X d = Some err"
  shows "LoadDependencyModel X c w1 = (Ok (Inl err, c1), emit (EvValidate d) w3)"
proof -
  have a: "addDepsTree X (freshDeps c) (DepsTree c) mc 0 w2 = (Ok (None, depsA), wA)"
    unfolding addDepsTree_def t0 option.case by (rule main)
  have b: "addDepsTree X depsA (DevDepsTree c) mc (length (map fst t0)) wA =
             (Ok (Some err, deps1), emit (EvValidate d) w3)"
    unfolding addDepsTree_def t keys option.case
    using addDepsKeys_reaches_rejected[OF _ entry rej, of ks1 mc depsA "length t0" wA deps1 w3 ks2] pre
    by simp
  show ?thesis
    unfolding LoadDependencyModel_unfold[OF gate totalDeps_dev[OF t keys]]
    using a b by (simp add: TreeKeys_def t0)
qed

lemma loadDependencies_rejected:
  assumes cfg: "NewConfig X root (w\<lparr>importGraph := NewGraph\<rparr>) = (Ok c, w0)"
    and repo: "InitRepo X c w0 = (Ok (), w1)"
    and ldm: "LoadDependencyModel X c w1 = (Ok (Inl err, c1), w4)"
  shows "loadDependencies X depth root w = (Exit 1, emit (EvFailf err) w4)"
  using assms by (simp add: loadDependencies_def loadConfiguration_def failf_def)

lemmas ex_cfg_defs = exGoodEmptyConfig_def exGoodEmptyDevConfig_def exTwiceConfig_def
  freshDeps_def totalDeps_def entryOf_def

text \<open>
  A declaration with a rejected entry is never loaded: the run ends while loading, and
  the aggregated validation is not reached.
\<close>

lemma rejected_entry_ends_loading:
  assumes run: "loadDependencies X depth root w = (r, w')"
    and nc: "NewConfig X root (w\<lparr>importGraph := NewGraph\<rparr>) = (Ok c, w0)"
    and inv: "0 < invalidCount X c"
  shows "(r = Exit 1 \<or> r = Panic) \<and> (\<exists>l. trace w' = trace w @ l \<and> list_all loaderEvent l)"
proof -
  obtain r1 w1 where lc: "loadConfiguration X root w = (r1, w1)"
    by (cases "loadConfiguration X root w")
  have notOk: "r1 \<noteq> Ok v" for v
  proof
    assume "r1 = Ok v"
    with lc loadConfiguration_valid[of X root w "fst v" "snd v" w1] nc inv show False by auto
  qed
  have e1: "exitsOne r1" using loadConfiguration_exitsOne[of X root w] lc by simp
  from run lc notOk have res: "r = Exit 1 \<or> r = Panic" and w': "w' = w1"
    using e1 by (cases r1; auto simp: loadDependencies_def)+
  from loadConfiguration_step[of loaderEvent, OF _ lc, of "[]"]
  have "\<exists>l. trace w1 = trace w @ l \<and> list_all loaderEvent l" by (simp add: step_def)
  with res w' show ?thesis by simp
qed
section \<open>Claims about the import graph\<close>

lemmas ex_defs = exA_def exAB_def exABC_def exXY_def exAB'_def exampleDep_def

lemma Search_no_prefix:
  assumes g: "InsertAll ds NewGraph = Some g"
    and "\<forall>e\<in>set ds. \<not> prefix (Split (Import e)) (Split I)"
  shows "Search g I = None"
proof -
  have "\<forall>p. p \<noteq> [] \<longrightarrow> prefix p (Split I) \<longrightarrow> \<not> leafAt (GraphNodes g) p"
    using leafAt_InsertAll[OF g] assms(2) by auto
  from searchKeys_None[OF this] show ?thesis by (simp add: Search_def)
qed

text \<open>
  Claim C1, as amended. Let \<open>d\<close> be inserted with identifier \<open>I\<close>, after the inserts
  \<open>pre\<close> and before the inserts \<open>post\<close>, starting from \<open>NewGraph\<close>. If \<open>I\<close> is not
  inserted again afterwards and no other inserted identifier is a strict prefix of \<open>I\<close>
  (segment-wise), then every insert succeeds and \<open>Search(I)\<close> returns the leaf node that
  holds \<open>d\<close>.
\<close>

theorem Search_returns_inserted:
  assumes "\<forall>e\<in>set post. Import e \<noteq> Import d"
    and "\<forall>e\<in>set (pre @ post). \<not> strict_prefix (Split (Import e)) (Split (Import d))"
  shows "\<exists>g n. InsertAll (pre @ d # post) NewGraph = Some g \<and>
           Search g (Import d) = Some n \<and> Dependency n = Some d \<and> Leaf n"
proof -
  obtain g where g: "InsertAll (pre @ d # post) NewGraph = Some g"
    using InsertAll_total by blast
  from Search_first_leaf[OF g assms, of "Split (Import d)"] g show ?thesis
    by (auto simp: Search_def)
qed

theorem Search_returns_inserted_witness:
  "\<exists>g n. InsertAll ([exXY, exAB'] @ exAB # [exABC]) NewGraph = Some g \<and>
     Search g (Import exAB) = Some n \<and> Dependency n = Some exAB \<and> Leaf n"
  using Search_returns_inserted[of "[exABC]" exAB "[exXY, exAB']"]
  by (simp add: ex_defs strict_prefix_def)

text \<open>
  Claim C1 as stated fails: after inserting \<open>a\<close> and then \<open>a/b\<close>, \<open>Search("a/b")\<close> stops
  at the leaf of \<open>a\<close> and returns the node holding the dependency of \<open>a\<close>.
\<close>

theorem Search_prefix_shadows_counterexample:
  "InsertAll [exA, exAB] NewGraph =
     Some (Graph [(''a'', Node ''a'' (Some exA) True [(''b'', Node ''b'' (Some exAB) True [])])]) \<and>
   Search (Graph [(''a'', Node ''a'' (Some exA) True [(''b'', Node ''b'' (Some exAB) True [])])])
     (Import exAB) = Some (Node ''a'' (Some exA) True [(''b'', Node ''b'' (Some exAB) True [])]) \<and>
   Dependency (Node ''a'' (Some exA) True [(''b'', Node ''b'' (Some exAB) True [])]) \<noteq> Some exAB"
  by (simp add: ex_defs NewGraph_def Insert_def Search_def)

text \<open>
  Claim C6, as amended. Let \<open>d\<close> be the last dependency inserted with identifier \<open>I1\<close>,
  and let no other inserted identifier be a strict prefix of \<open>I1\<close>. Then for every strict
  descendant path \<open>I2\<close> of \<open>I1\<close>, \<open>Search(I2)\<close> returns the node holding \<open>d\<close>. A query of
  which no inserted identifier is a prefix returns \<open>nil\<close>; and in any graph, a query
  whose walk meets an absent segment before any leaf returns \<open>nil\<close>.
\<close>

theorem Search_descendant_or_nothing:
  assumes "\<forall>e\<in>set post. Import e \<noteq> Import d"
    and "\<forall>e\<in>set (pre @ post). \<not> strict_prefix (Split (Import e)) (Split (Import d))"
  shows "\<exists>g. InsertAll (pre @ d # post) NewGraph = Some g \<and>
     (\<forall>I2. strict_prefix (Split (Import d)) (Split I2) \<longrightarrow>
        (\<exists>n. Search g I2 = Some n \<and> Dependency n = Some d)) \<and>
     (\<forall>I. (\<forall>e\<in>set (pre @ d # post). \<not> prefix (Split (Import e)) (Split I)) \<longrightarrow>
        Search g I = None) \<and>
     (\<forall>h I p k r. Split I = p @ k # r \<longrightarrow>
        (\<forall>p'. p' \<noteq> [] \<longrightarrow> prefix p' p \<longrightarrow> \<not> leafAt (GraphNodes h) p') \<longrightarrow>
        nodeAt (GraphNodes h) (p @ [k]) = None \<longrightarrow> Search h I = None)"
proof -
  obtain g where g: "InsertAll (pre @ d # post) NewGraph = Some g"
    using InsertAll_total by blast
  have a: "\<exists>n. Search g I2 = Some n \<and> Dependency n = Some d"
    if "strict_prefix (Split (Import d)) (Split I2)" for I2
    using Search_first_leaf[OF g assms, of "Split I2"] that
    by (auto simp: Search_def strict_prefix_def)
  have b: "Search g I = None"
    if "\<forall>e\<in>set (pre @ d # post). \<not> prefix (Split (Import e)) (Split I)" for I
    using Search_no_prefix[OF g that] .
  have c: "Search h I = None"
    if "Split I = p @ k # r"
      "\<forall>p'. p' \<noteq> [] \<longrightarrow> prefix p' p \<longrightarrow> \<not> leafAt (GraphNodes h) p'"
      "nodeAt (GraphNodes h) (p @ [k]) = None" for h I p k r
    using searchKeys_absent[OF that(2,3), of r] that(1) by (simp add: Search_def)
  from g a b c show ?thesis by blast
qed

theorem Search_descendant_or_nothing_witness:
  "\<exists>g. InsertAll ([exXY] @ exAB # [exABC]) NewGraph = Some g \<and>
     (\<exists>n. Search g ''a/b/c/d'' = Some n \<and> Dependency n = Some exAB) \<and>
     Search g ''a/c'' = None \<and> Search g ''y'' = None"
proof -
  from Search_descendant_or_nothing[of "[exABC]" exAB "[exXY]"]
  obtain g where g: "InsertAll ([exXY] @ exAB # [exABC]) NewGraph = Some g"
    and a: "\<forall>I2. strict_prefix (Split (Import exAB)) (Split I2) \<longrightarrow>
        (\<exists>n. Search g I2 = Some n \<and> Dependency n = Some exAB)"
    and b: "\<forall>I. (\<forall>e\<in>set ([exXY] @ exAB # [exABC]). \<not> prefix (Split (Import e)) (Split I)) \<longrightarrow>
        Search g I = None"
    and c: "\<forall>h I p k r. Split I = p @ k # r \<longrightarrow>
        (\<forall>p'. p' \<noteq> [] \<longrightarrow> prefix p' p \<longrightarrow> \<not> leafAt (GraphNodes h) p') \<longrightarrow>
        nodeAt (GraphNodes h) (p @ [k]) = None \<longrightarrow> Search h I = None"
    by (auto simp: ex_defs strict_prefix_def)
  have 1: "\<exists>n. Search g ''a/b/c/d'' = Some n \<and> Dependency n = Some exAB"
    using a[rule_format, of "''a/b/c/d''"] by (simp add: ex_defs strict_prefix_def)
  have 2: "Search g ''y'' = None"
    using spec[OF b, of "''y''"] by (simp add: ex_defs)
  have gv: "g = Graph [(''x'', Node ''x'' None False [(''y'', Node ''y'' (Some exXY) True [])]),
      (''a'', Node ''a'' None False [(''b'', Node ''b'' (Some exAB) True [(''c'', Node ''c'' (Some exABC) True [])])])]"
    using g by (simp add: ex_defs NewGraph_def Insert_def)
  have 3: "Search g ''a/c'' = None"
    using c[rule_format, of "''a/c''" "[''a'']" "''c''" "[]" g]
    by (simp add: gv leafAt_def prefix_Cons)
  from g 1 2 3 show ?thesis by blast
qed

text \<open>
  Claim C6 as stated fails: after inserting \<open>a/b\<close> and then \<open>a\<close>, the descendant
  \<open>a/b/c\<close> of the inserted leaf \<open>a/b\<close> resolves to the node of \<open>a\<close>, the first leaf
  on the walk.
\<close>

theorem Search_descendant_shadowed_counterexample:
  "InsertAll [exAB, exA] NewGraph =
     Some (Graph [(''a'', Node ''a'' (Some exA) True [(''b'', Node ''b'' (Some exAB) True [])])]) \<and>
   Search (Graph [(''a'', Node ''a'' (Some exA) True [(''b'', Node ''b'' (Some exAB) True [])])])
     ''a/b/c'' = Some (Node ''a'' (Some exA) True [(''b'', Node ''b'' (Some exAB) True [])]) \<and>
   Dependency (Node ''a'' (Some exA) True [(''b'', Node ''b'' (Some exAB) True [])]) \<noteq> Some exAB"
  by (simp add: ex_defs NewGraph_def Insert_def Search_def)


text \<open>
  Claim C7. Let the identifier of \<open>d'\<close> have been inserted before (by some \<open>d\<close> among
  the inserts \<open>ds\<close> from \<open>NewGraph\<close>). Then inserting \<open>d'\<close> succeeds, and the graph keeps
  its shape (the keys, leaf flags and child maps of all nodes, in place), its number of
  leaves and its number of nodes; the leaf at the identifier now holds \<open>d'\<close>, and the
  dependency at every other path is as before.
\<close>

theorem reinsert_keeps_shape:
  assumes "d \<in> set ds" and "Import d' = Import d"
  shows "\<exists>g g'. InsertAll ds NewGraph = Some g \<and> Insert d' g = Some g' \<and>
     graphShape g' = graphShape g \<and> leafCount g' = leafCount g \<and>
     length (graphNodes g') = length (graphNodes g) \<and>
     depAt (GraphNodes g') (Split (Import d')) = Some d' \<and>
     (\<forall>p. p \<noteq> Split (Import d') \<longrightarrow> depAt (GraphNodes g') p = depAt (GraphNodes g) p)"
proof -
  obtain g where g: "InsertAll ds NewGraph = Some g" using InsertAll_total by blast
  obtain g' where g': "Insert d' g = Some g'" using Insert_total by blast
  have "leafAt (GraphNodes g) (Split (Import d'))"
    using leafAt_InsertAll[OF g, of "Split (Import d')"] assms by auto
  from reinsert_graph[OF this g'] depAt_Insert[OF g'] g g' show ?thesis by auto
qed

theorem reinsert_keeps_shape_witness:
  "\<exists>g g'. InsertAll [exXY, exAB, exABC] NewGraph = Some g \<and> Insert exAB' g = Some g' \<and>
     graphShape g' = graphShape g \<and> leafCount g' = leafCount g \<and>
     length (graphNodes g') = length (graphNodes g) \<and>
     depAt (GraphNodes g') (Split (Import exAB')) = Some exAB' \<and>
     depAt (GraphNodes g') [''a'', ''b'', ''c''] = depAt (GraphNodes g) [''a'', ''b'', ''c'']"
proof -
  have "exAB \<in> set [exXY, exAB, exABC]" "Import exAB' = Import exAB"
    by (simp_all add: ex_defs)
  from reinsert_keeps_shape[OF this] show ?thesis
    by (auto simp: ex_defs)
qed

text \<open>
  Claim C9. Every sequence of \<open>Insert\<close> calls from \<open>NewGraph\<close> succeeds, and in the
  resulting graph every node is a leaf if and only if it holds a dependency.
\<close>

theorem leaf_iff_dependency:
  "\<exists>g. InsertAll ds NewGraph = Some g \<and>
     (\<forall>n\<in>set (graphNodes g). Leaf n \<longleftrightarrow> Dependency n \<noteq> None)"
proof -
  obtain g where g: "InsertAll ds NewGraph = Some g" using InsertAll_total by blast
  have "\<forall>m\<in>set (graphNodes NewGraph). Leaf m = (Dependency m \<noteq> None)"
    by (simp add: graphNodes_def NewGraph_def)
  from InsertAll_invariant[OF g this] g show ?thesis by blast
qed

theorem leaf_iff_dependency_witness:
  "\<exists>g. InsertAll [exABC, exAB, exXY] NewGraph = Some g \<and>
     (\<forall>n\<in>set (graphNodes g). Leaf n \<longleftrightarrow> Dependency n \<noteq> None) \<and>
     length (graphNodes g) = 5"
proof -
  from leaf_iff_dependency[of "[exABC, exAB, exXY]"] obtain g where
    g: "InsertAll [exABC, exAB, exXY] NewGraph = Some g"
    and inv: "\<forall>n\<in>set (graphNodes g). Leaf n \<longleftrightarrow> Dependency n \<noteq> None" by blast
  from g have "length (graphNodes g) = 5"
    by (auto simp: ex_defs NewGraph_def Insert_def graphNodes_def)
  with g inv show ?thesis by blast
qed

section \<open>Claims about the configuration\<close>

text \<open>
  Claim C10 fails on the code. For the declaration with a \<open>dev-deps\<close> table of one entry
  and no \<open>deps\<close> table, \<open>NewConfig\<close> leaves \<open>DepsTree\<close> \<open>nil\<close>, and
  \<open>LoadDependencyModel\<close> panics: the second \<open>addDepsTree\<close> call evaluates
  \<open>len(c.DepsTree.Keys())\<close> without the \<open>nil\<close> check that guards the same expression
  at the top of the function. No Dependencies set is returned.
\<close>

theorem LoadDependencyModel_dev_only_panics:
  "NewConfig exExt ''.'' (exWorld ''dev-only'') = (Ok exDevOnlyConfig, exWorld ''dev-only'') \<and>
   LoadDependencyModel exExt exDevOnlyConfig (exWorld ''dev-only'') = (Panic, exWorld ''dev-only'')"
  by (simp add: NewConfig_def Let_def exExt_def exWorld_def filepathJoin_def exDeclarations_def exDevOnlyConfig_def
      LoadDependencyModel_def modifiedChecksum_def checksumPath_def GopackChecksum_def addDepsTree_def TreeKeys_def exEntry_def)

text \<open>
  Claim C5. Let the declaration file hold \<open>s\<close>, and let the cached checksum of the
  \<open>Config\<close>, if there is one, be the hash of \<open>s\<close>. Then \<open>modifiedChecksum\<close> returns, and
  returns true exactly when the marker is absent or its data differ from the
  hex-encoded hash of \<open>s\<close> (an inaccessible marker reads as no data). With no marker it
  returns true, whatever the \<open>Config\<close>. And after a \<open>WriteChecksum\<close> that succeeded, with
  the declaration still holding \<open>s\<close>, a fresh \<open>Config\<close> of the same path gets false.
\<close>

theorem modifiedChecksum_iff:
  assumes cache: "Checksum c = None \<or> Checksum c = Some (md5 X s)"
    and decl: "files w (Path c) = Content s"
  shows "(\<exists>c'. modifiedChecksum X c w =
            (Ok (files w (checksumPath w) = Absent \<or>
                 markerData (files w (checksumPath w)) \<noteq> hexEncodeToString (md5 X s), c'), w)) \<and>
         (\<forall>c0 w0. files w0 (checksumPath w0) = Absent \<longrightarrow>
            modifiedChecksum X c0 w0 = (Ok (True, c0), w0)) \<and>
         (\<forall>c1 w1 c2. WriteChecksum X c w = (Ok c1, w1) \<longrightarrow> files w1 (Path c) = Content s \<longrightarrow>
            Path c2 = Path c \<longrightarrow> Checksum c2 = None \<longrightarrow>
            (\<exists>c3. modifiedChecksum X c2 w1 = (Ok (False, c3), w1)))"
proof (intro conjI allI impI)
  show "\<exists>c'. modifiedChecksum X c w =
            (Ok (files w (checksumPath w) = Absent \<or>
                 markerData (files w (checksumPath w)) \<noteq> hexEncodeToString (md5 X s), c'), w)"
    using cache decl
    by (cases "files w (checksumPath w)")
       (auto simp: modifiedChecksum_def checksum_def markerData_def)
next
  fix c0 :: config and w0 :: world assume "files w0 (checksumPath w0) = Absent"
  then show "modifiedChecksum X c0 w0 = (Ok (True, c0), w0)"
    by (simp add: modifiedChecksum_def)
next
  fix c1 :: config and w1 :: world and c2 :: config
  assume wr: "WriteChecksum X c w = (Ok c1, w1)" and same: "files w1 (Path c) = Content s"
    and c2: "Path c2 = Path c" "Checksum c2 = None"
  from WriteChecksum_Ok[OF wr] obtain h where ch: "checksum X c w = (Ok (h, c1), w)"
    and w1: "w1 = emit (EvWriteChecksum h) (w\<lparr>files := (files w)(checksumPath w := Content h)\<rparr>)"
    by blast
  from ch cache decl have h: "h = hexEncodeToString (md5 X s)"
    by (auto simp: checksum_def)
  have marker: "files w1 (checksumPath w1) = Content h"
    by (simp add: w1 emit_def checksumPath_def)
  show "\<exists>c3. modifiedChecksum X c2 w1 = (Ok (False, c3), w1)"
    using marker same c2 h by (simp add: modifiedChecksum_def checksum_def)
qed

theorem modifiedChecksum_iff_witness:
  "(\<exists>c'. modifiedChecksum exExt exDevOnlyConfig (exWorld ''dev-only'') =
            (Ok (True, c'), exWorld ''dev-only'')) \<and>
   (\<exists>c1 w1 c3. WriteChecksum exExt exDevOnlyConfig (exWorld ''dev-only'') = (Ok c1, w1) \<and>
      files w1 (checksumPath w1) = Content ''796c6e6f2d766564'' \<and>
      modifiedChecksum exExt exDevOnlyConfig w1 = (Ok (False, c3), w1))"
proof -
  have cache: "Checksum exDevOnlyConfig = None \<or> Checksum exDevOnlyConfig = Some (md5 exExt ''dev-only'')"
    by (simp add: exDevOnlyConfig_def)
  have decl: "files (exWorld ''dev-only'') (Path exDevOnlyConfig) = Content ''dev-only''"
    by (simp add: exDevOnlyConfig_def exWorld_def)
  note char = modifiedChecksum_iff[OF cache decl]
  have absent: "files (exWorld ''dev-only'') (checksumPath (exWorld ''dev-only'')) = Absent"
    by (simp add: exWorld_def checksumPath_def filepathJoin_def GopackChecksum_def)
  from char absent have 1: "\<exists>c'. modifiedChecksum exExt exDevOnlyConfig (exWorld ''dev-only'') =
            (Ok (True, c'), exWorld ''dev-only'')"
    by simp
  obtain c1 w1 where wr: "WriteChecksum exExt exDevOnlyConfig (exWorld ''dev-only'') = (Ok c1, w1)"
    and marker: "files w1 (checksumPath w1) = Content ''796c6e6f2d766564''"
    and same: "files w1 (Path exDevOnlyConfig) = Content ''dev-only''"
    by (simp add: WriteChecksum_def checksum_def exDevOnlyConfig_def exWorld_def WriteFile_def
        checksumPath_def filepathJoin_def GopackChecksum_def emit_def exExt_def
        hexEncodeToString_def hexDigit_def)
  from char wr same have "\<exists>c3. modifiedChecksum exExt exDevOnlyConfig w1 = (Ok (False, c3), w1)"
    by (simp add: exDevOnlyConfig_def)
  with 1 wr marker show ?thesis by blast
qed

section \<open>Claims about the run\<close>

text \<open>
  Claim C4. Assume that the operations on the disk (retrieval, checkout, the self
  link) leave the marker file as it is. If \<open>loadDependencies\<close> does not return with a
  Dependencies set (it exits at validation, fetch, checkout or transitive resolution, it
  panics, it does not end, or there is nothing to load), then the marker holds after the
  run what it held before, and \<open>WriteChecksum\<close> has not written during the run.
\<close>

theorem marker_written_only_on_success:
  assumes frame: "keepsFile X (checksumPath w)"
    and run: "loadDependencies X depth root w = (r, w')"
    and failed: "\<forall>c deps. r \<noteq> Ok (c, Some deps)"
  shows "files w' (checksumPath w') = files w (checksumPath w) \<and>
         (\<forall>h. EvWriteChecksum h \<notin> set (drop (length (trace w)) (trace w')))"
proof -
  from loadDependencies_failure_step[OF run failed, of "checksumPath w"] frame
  have pwd: "pwd w' = pwd w" and f: "files w' (checksumPath w) = files w (checksumPath w)"
    and tr: "\<exists>l. trace w' = trace w @ l \<and> list_all notWrite l"
    by (auto simp: step_def)
  from pwd have "checksumPath w' = checksumPath w" by (simp add: checksumPath_def)
  with f tr show ?thesis by (auto simp: list_all_iff notWrite_def)
qed

theorem marker_written_only_on_success_witness:
  "\<exists>w'. loadDependencies exExt 3 ''.'' (exWorldMarked ''good-then-empty'' ''old'') = (Exit 1, w') \<and>
      files w' (checksumPath w') = Content ''old''"
proof -
  let ?w = "exWorldMarked ''good-then-empty'' ''old''"
  have p: "checksumPath ?w = ''/proj/.gopack/checksum''"
    by (simp add: ex_run_defs)
  obtain w' where run: "loadDependencies exExt 3 ''.'' ?w = (Exit 1, w')"
    by (simp add: ex_run_defs List.map_filter_def)
  have "keepsFile exExt (checksumPath ?w)" unfolding p by (rule exExt_keepsFile)
  from marker_written_only_on_success[OF this run] have "files w' (checksumPath w') = files ?w (checksumPath ?w)"
    by simp
  also have "\<dots> = Content ''old''" unfolding p by (simp add: exWorldMarked_def)
  finally show ?thesis using run by blast
qed



text \<open>
  Claim C3, as amended. Validation of the single Deps is fail-fast and happens while the
  declaration is loaded. Let the configuration be read, the self link made and the
  checksum gate computed, and let \<open>k\<close> be an entry, of the main table or (a main table
  being present and loaded) of the dev table, whose Dep \<open>d\<close> is rejected by
  \<open>Dep.Validate\<close> with \<open>err\<close>, every entry before it having been loaded (validated,
  fetched and stored). Then no entry before \<open>k\<close> is rejected, the run validates \<open>d\<close>,
  reports \<open>err\<close> alone through \<open>failf\<close> and exits with status 1; the entries after \<open>k\<close>,
  valid or not, are not looked at. The aggregated \<open>Dependencies.Validate\<close> runs on a
  loaded set, all of whose members have passed \<open>Dep.Validate\<close>; when it returns errors,
  \<open>failWith\<close> reports all of them as one batch and the exit status is their number.
\<close>

theorem validation_exit_status:
  assumes run: "loadDependencies X depth root w = (r, w')"
    and cfg: "NewConfig X root (w\<lparr>importGraph := NewGraph\<rparr>) = (Ok c, w0)"
    and repo: "InitRepo X c w0 = (Ok (), w1)"
    and gate: "modifiedChecksum X c w1 = (Ok (mc, c1), w2)"
  shows "(\<forall>t ks1 k ks2 deps1 w3 d err.
            DepsTree c = Some t \<longrightarrow> map fst t = ks1 @ k # ks2 \<longrightarrow>
            addDepsKeys X t ks1 mc (freshDeps c) 0 w2 = (Ok (None, deps1), w3) \<longrightarrow>
            entryOf X t k = Some d \<longrightarrow> DepValidate X d = Some err \<longrightarrow>
            r = Exit 1 \<and> w' = emit (EvFailf err) (emit (EvValidate d) w3) \<and>
            (\<forall>k'\<in>set ks1. \<not> invalidEntry X t k')) \<and>
         (\<forall>t0 depsA wA t ks1 k ks2 deps1 w3 d err.
            DepsTree c = Some t0 \<longrightarrow>
            addDepsKeys X t0 (map fst t0) mc (freshDeps c) 0 w2 = (Ok (None, depsA), wA) \<longrightarrow>
            DevDepsTree c = Some t \<longrightarrow> map fst t = ks1 @ k # ks2 \<longrightarrow>
            addDepsKeys X t ks1 mc depsA (length t0) wA = (Ok (None, deps1), w3) \<longrightarrow>
            entryOf X t k = Some d \<longrightarrow> DepValidate X d = Some err \<longrightarrow>
            r = Exit 1 \<and> w' = emit (EvFailf err) (emit (EvValidate d) w3) \<and>
            (\<forall>k'\<in>set (map fst t0). \<not> invalidEntry X t0 k') \<and>
            (\<forall>k'\<in>set ks1. \<not> invalidEntry X t k')) \<and>
         (\<forall>c' deps w4. loadConfiguration X root w = (Ok (c', Some deps), w4) \<longrightarrow>
            memberErrors X (DepList deps) = [] \<and>
            (DependenciesValidate X deps \<noteq> [] \<longrightarrow>
               r = Exit (int (length (DependenciesValidate X deps))) \<and>
               w' = emit (EvFailWith (DependenciesValidate X deps))
                      (emit (EvValidateSet (DependenciesValidate X deps)) w4)))"
proof (intro conjI allI impI)
  fix t ks1 k ks2 deps1 w3 d err
  assume t: "DepsTree c = Some t" and keys: "map fst t = ks1 @ k # ks2"
    and pre: "addDepsKeys X t ks1 mc (freshDeps c) 0 w2 = (Ok (None, deps1), w3)"
    and entry: "entryOf X t k = Some d" and rej: "DepValidate X d = Some err"
  from loadDependencies_rejected[OF cfg repo
      LoadDependencyModel_main_rejected[OF gate t keys pre entry rej], of depth] run
  show "r = Exit 1" "w' = emit (EvFailf err) (emit (EvValidate d) w3)" by simp_all
  from addDepsKeys_valid[OF pre] show "\<forall>k'\<in>set ks1. \<not> invalidEntry X t k'" by simp
next
  fix t0 depsA wA t ks1 k ks2 deps1 w3 d err
  assume t0: "DepsTree c = Some t0"
    and main: "addDepsKeys X t0 (map fst t0) mc (freshDeps c) 0 w2 = (Ok (None, depsA), wA)"
    and t: "DevDepsTree c = Some t" and keys: "map fst t = ks1 @ k # ks2"
    and pre: "addDepsKeys X t ks1 mc depsA (length t0) wA = (Ok (None, deps1), w3)"
    and entry: "entryOf X t k = Some d" and rej: "DepValidate X d = Some err"
  from loadDependencies_rejected[OF cfg repo
      LoadDependencyModel_dev_rejected[OF gate t0 main t keys pre entry rej], of depth] run
  show "r = Exit 1" "w' = emit (EvFailf err) (emit (EvValidate d) w3)" by simp_all
  from addDepsKeys_valid[OF main] have vA: "allValid X (DepList depsA)"
    and "\<forall>k'\<in>set (map fst t0). \<not> invalidEntry X t0 k'" by simp_all
  then show "\<forall>k'\<in>set (map fst t0). \<not> invalidEntry X t0 k'" by simp
  from addDepsKeys_valid[OF pre vA] show "\<forall>k'\<in>set ks1. \<not> invalidEntry X t k'" by simp
next
  fix c' deps w4
  assume lc: "loadConfiguration X root w = (Ok (c', Some deps), w4)"
  from loadConfiguration_valid[OF lc] have "allValid X (DepList deps)" by auto
  then show "memberErrors X (DepList deps) = []" by (rule allValid_memberErrors)
next
  fix c' deps w4
  assume lc: "loadConfiguration X root w = (Ok (c', Some deps), w4)"
    and errs: "DependenciesValidate X deps \<noteq> []"
  from run lc errs
  show "r = Exit (int (length (DependenciesValidate X deps)))"
    "w' = emit (EvFailWith (DependenciesValidate X deps))
                      (emit (EvValidateSet (DependenciesValidate X deps)) w4)"
    by (simp_all add: loadDependencies_def Let_def failWith_cases)
qed

theorem validation_exit_status_witness:
  "loadDependencies exExt 3 ''.'' (exWorld ''good-then-empty'') =
     (Exit 1, (exWorld ''good-then-empty'')\<lparr>
         files := (files (exWorld ''good-then-empty''))(''vendor/example.org/one'' := Content []),
         importGraph := Graph [(''example.org'', Node ''example.org'' None False
            [(''one'', Node ''one'' (Some (exampleDep ''example.org/one'')) True [])])],
         trace := [EvValidate (exampleDep ''example.org/one''),
                   EvFetch (exampleDep ''example.org/one'') True,
                   EvRetrieve (exampleDep ''example.org/one''),
                   EvValidate (exampleDep []), EvFailf ''missing import'']\<rparr>) \<and>
   fst (loadDependencies exExt 3 ''.'' (exWorld ''good-then-empty-dev'')) = Exit 1 \<and>
   last (trace (snd (loadDependencies exExt 3 ''.'' (exWorld ''good-then-empty-dev'')))) =
     EvFailf ''missing import'' \<and>
   fst (loadDependencies exExt 3 ''.'' (exWorld ''twice'')) = Exit 2"
proof -
  let ?w = "exWorld ''good-then-empty''"
  obtain r w' where run: "loadDependencies exExt 3 ''.'' ?w = (r, w')"
    by (cases "loadDependencies exExt 3 ''.'' ?w")
  have cfg: "NewConfig exExt ''.'' (?w\<lparr>importGraph := NewGraph\<rparr>) = (Ok exGoodEmptyConfig, ?w)"
    by (simp add: ex_run_defs ex_cfg_defs)
  have repo: "InitRepo exExt exGoodEmptyConfig ?w = (Ok (), ?w)"
    by (simp add: InitRepo_def ex_cfg_defs)
  have gate: "modifiedChecksum exExt exGoodEmptyConfig ?w = (Ok (True, exGoodEmptyConfig), ?w)"
    by (simp add: ex_run_defs)
  have t: "DepsTree exGoodEmptyConfig = Some [exEntry ''one'' ''example.org/one'', exEntry ''two'' []]"
    by (simp add: ex_cfg_defs)
  have keys: "map fst [exEntry ''one'' ''example.org/one'', exEntry ''two'' []] = [''one''] @ ''two'' # []"
    by (simp add: exEntry_def)
  obtain deps1 where pre: "addDepsKeys exExt [exEntry ''one'' ''example.org/one'', exEntry ''two'' []]
      [''one''] True (freshDeps exGoodEmptyConfig) 0 ?w = (Ok (None, deps1),
        ?w\<lparr>files := (files ?w)(''vendor/example.org/one'' := Content []),
         importGraph := Graph [(''example.org'', Node ''example.org'' None False
            [(''one'', Node ''one'' (Some (exampleDep ''example.org/one'')) True [])])],
         trace := [EvValidate (exampleDep ''example.org/one''),
                   EvFetch (exampleDep ''example.org/one'') True,
                   EvRetrieve (exampleDep ''example.org/one'')]\<rparr>)"
    by (simp add: ex_run_defs ex_cfg_defs)
  have entry: "entryOf exExt [exEntry ''one'' ''example.org/one'', exEntry ''two'' []] ''two'' =
      Some (exampleDep [])"
    by (simp add: ex_run_defs ex_cfg_defs)
  have rej: "DepValidate exExt (exampleDep []) = Some ''missing import''"
    by (simp add: exExt_def exampleDep_def)
  from validation_exit_status[OF run cfg repo gate, THEN conjunct1, rule_format,
      OF t keys pre entry rej]
  have "r = Exit 1 \<and> w' = emit (EvFailf ''missing import'') (emit (EvValidate (exampleDep []))
        (?w\<lparr>files := (files ?w)(''vendor/example.org/one'' := Content []),
         importGraph := Graph [(''example.org'', Node ''example.org'' None False
            [(''one'', Node ''one'' (Some (exampleDep ''example.org/one'')) True [])])],
         trace := [EvValidate (exampleDep ''example.org/one''),
                   EvFetch (exampleDep ''example.org/one'') True,
                   EvRetrieve (exampleDep ''example.org/one'')]\<rparr>))"
    by simp
  with run have 1: "loadDependencies exExt 3 ''.'' ?w =
     (Exit 1, ?w\<lparr>
         files := (files ?w)(''vendor/example.org/one'' := Content []),
         importGraph := Graph [(''example.org'', Node ''example.org'' None False
            [(''one'', Node ''one'' (Some (exampleDep ''example.org/one'')) True [])])],
         trace := [EvValidate (exampleDep ''example.org/one''),
                   EvFetch (exampleDep ''example.org/one'') True,
                   EvRetrieve (exampleDep ''example.org/one''),
                   EvValidate (exampleDep []), EvFailf ''missing import'']\<rparr>)"
    by (simp add: emit_def)

  let ?v = "exWorld ''good-then-empty-dev''"
  obtain r2 v' where run2: "loadDependencies exExt 3 ''.'' ?v = (r2, v')"
    by (cases "loadDependencies exExt 3 ''.'' ?v")
  have cfg2: "NewConfig exExt ''.'' (?v\<lparr>importGraph := NewGraph\<rparr>) = (Ok exGoodEmptyDevConfig, ?v)"
    by (simp add: ex_run_defs ex_cfg_defs)
  have repo2: "InitRepo exExt exGoodEmptyDevConfig ?v = (Ok (), ?v)"
    by (simp add: InitRepo_def ex_cfg_defs)
  have gate2: "modifiedChecksum exExt exGoodEmptyDevConfig ?v = (Ok (True, exGoodEmptyDevConfig), ?v)"
    by (simp add: ex_run_defs)
  have t0: "DepsTree exGoodEmptyDevConfig = Some [exEntry ''one'' ''example.org/one'']"
    and td: "DevDepsTree exGoodEmptyDevConfig = Some [exEntry ''two'' ''example.org/two'',
          exEntry ''three'' [], exEntry ''four'' []]"
    by (simp_all add: ex_cfg_defs)
  have keys2: "map fst [exEntry ''two'' ''example.org/two'', exEntry ''three'' [], exEntry ''four'' []] =
      [''two''] @ ''three'' # [''four'']"
    by (simp add: exEntry_def)
  obtain depsA wA where main: "addDepsKeys exExt [exEntry ''one'' ''example.org/one'']
      (map fst [exEntry ''one'' ''example.org/one'']) True (freshDeps exGoodEmptyDevConfig) 0 ?v =
        (Ok (None, depsA), wA)"
    and pre2ex: "\<exists>deps1 w3. addDepsKeys exExt [exEntry ''two'' ''example.org/two'', exEntry ''three'' [],
          exEntry ''four'' []] [''two''] True depsA
          (length [exEntry ''one'' ''example.org/one'']) wA = (Ok (None, deps1), w3)"
    by (simp add: ex_run_defs ex_cfg_defs)
  from pre2ex obtain deps1' w3' where pre2: "addDepsKeys exExt [exEntry ''two'' ''example.org/two'',
          exEntry ''three'' [], exEntry ''four'' []] [''two''] True depsA
          (length [exEntry ''one'' ''example.org/one'']) wA = (Ok (None, deps1'), w3')"
    by blast
  have entry2: "entryOf exExt [exEntry ''two'' ''example.org/two'', exEntry ''three'' [],
          exEntry ''four'' []] ''three'' = Some (exampleDep [])"
    by (simp add: ex_run_defs ex_cfg_defs)
  from validation_exit_status[OF run2 cfg2 repo2 gate2, THEN conjunct2, THEN conjunct1,
      rule_format, OF t0 main td keys2 pre2 entry2 rej]
  have "r2 = Exit 1 \<and> v' = emit (EvFailf ''missing import'') (emit (EvValidate (exampleDep [])) w3')"
    by simp
  with run2 have 2: "fst (loadDependencies exExt 3 ''.'' ?v) = Exit 1"
    "last (trace (snd (loadDependencies exExt 3 ''.'' ?v))) = EvFailf ''missing import''"
    by (simp_all add: emit_def)

  let ?u = "exWorld ''twice''"
  obtain r3 u' where run3: "loadDependencies exExt 3 ''.'' ?u = (r3, u')"
    by (cases "loadDependencies exExt 3 ''.'' ?u")
  have cfg3: "NewConfig exExt ''.'' (?u\<lparr>importGraph := NewGraph\<rparr>) = (Ok exTwiceConfig, ?u)"
    by (simp add: ex_run_defs ex_cfg_defs)
  have repo3: "InitRepo exExt exTwiceConfig ?u = (Ok (), ?u)"
    by (simp add: InitRepo_def ex_cfg_defs)
  have gate3: "modifiedChecksum exExt exTwiceConfig ?u = (Ok (True, exTwiceConfig), ?u)"
    by (simp add: ex_run_defs)
  obtain c' deps w4 where lc: "loadConfiguration exExt ''.'' ?u = (Ok (c', Some deps), w4)"
    and errs: "DependenciesValidate exExt deps =
       [''duplicate example.org/one'', ''duplicate example.org/one'']"
    by (simp add: ex_run_defs List.map_filter_def)
  from validation_exit_status[OF run3 cfg3 repo3 gate3, THEN conjunct2, THEN conjunct2,
      rule_format, OF lc] errs
  have "r3 = Exit 2" by simp
  with run3 have 3: "fst (loadDependencies exExt 3 ''.'' ?u) = Exit 2" by simp
  from 1 2 3 show ?thesis by blast
qed

text \<open>
  Claim C3 as stated fails: the declaration with three entries, two of them invalid,
  ends with exit status 1, not 2, and with the first error alone reported, by \<open>failf\<close>.
\<close>

theorem validation_fail_fast_counterexample:
  "NewConfig exExt ''.'' ((exWorld ''two-invalid-of-three'')\<lparr>importGraph := NewGraph\<rparr>) =
      (Ok exThreeConfig, exWorld ''two-invalid-of-three'') \<and>
   map_option length (DepsTree exThreeConfig) = Some 3 \<and>
   invalidCount exExt exThreeConfig = 2 \<and>
   fst (loadDependencies exExt 3 ''.'' (exWorld ''two-invalid-of-three'')) = Exit 1 \<and>
   trace (snd (loadDependencies exExt 3 ''.'' (exWorld ''two-invalid-of-three''))) =
     [EvValidate (exampleDep []), EvFailf ''missing import'']"
  by (simp add: ex_run_defs exThreeConfig_def invalidCount_def invalidEntry_def)

text \<open>
  Claim C2, as amended. In a run of \<open>loadDependencies\<close> the trace is: first the events of
  loading (the \<open>Dep.Validate\<close> and \<open>Dep.Fetch\<close> calls of the single Deps, with the
  retrievals \<open>Fetch\<close> makes), then, if loading returned a set, the aggregated
  \<open>Dependencies.Validate\<close>, and only after it has returned no error any \<open>Get\<close>, checkout
  or transitive load; with errors, nothing follows but their report. \<open>Dep.Fetch\<close>,
  however, is called while loading: an entry whose Dep is valid is fetched right after
  its own validation, and retrieved when the checksum gate forces it, before any later
  entry is read or validated.
\<close>

theorem retrieval_validation_order:
  assumes run: "loadDependencies X depth root w = (r, w')"
  shows "(\<exists>l1 l2. trace w' = trace w @ l1 @ l2 \<and>
            list_all (\<lambda>e. loaderEvent e \<and> \<not> pipelineEvent e) l1 \<and>
            (l2 = [] \<or> (\<exists>errs l3. l2 = EvValidateSet errs # l3 \<and>
                           (errs \<noteq> [] \<longrightarrow> l3 = [EvFailWith errs])))) \<and>
         (\<forall>t k ks depTree i mc deps pos v r1 v'.
            map_of t k = Some (TTree depTree) \<longrightarrow>
            map_of depTree ''import'' = Some (TString i) \<longrightarrow>
            DepValidate X (entryDep X depTree i) = None \<longrightarrow>
            addDepsKeys X t (k # ks) mc deps pos v = (r1, v') \<longrightarrow>
            prefix (trace v @ [EvValidate (entryDep X depTree i),
                               EvFetch (entryDep X depTree i) mc]) (trace v') \<and>
            (mc \<longrightarrow> prefix (trace v @ [EvValidate (entryDep X depTree i),
                                       EvFetch (entryDep X depTree i) True,
                                       EvRetrieve (entryDep X depTree i)]) (trace v')))"
proof (rule conjI)
  from loadDependencies_trace[OF run] obtain l1 l2 where
    t: "trace w' = trace w @ l1 @ l2" and l1: "list_all loaderEvent l1" and
    l2: "l2 = [] \<or> (\<exists>errs l3. l2 = EvValidateSet errs # l3 \<and> (errs \<noteq> [] \<longrightarrow> l3 = [EvFailWith errs]))"
    by blast
  from l1 have "list_all (\<lambda>e. loaderEvent e \<and> \<not> pipelineEvent e) l1"
    by (auto simp: list_all_iff loader_not_pipeline)
  with t l2 show "\<exists>l1 l2. trace w' = trace w @ l1 @ l2 \<and>
            list_all (\<lambda>e. loaderEvent e \<and> \<not> pipelineEvent e) l1 \<and>
            (l2 = [] \<or> (\<exists>errs l3. l2 = EvValidateSet errs # l3 \<and>
                           (errs \<noteq> [] \<longrightarrow> l3 = [EvFailWith errs])))"
    by blast
next
  show "\<forall>t k ks depTree i mc deps pos v r1 v'.
            map_of t k = Some (TTree depTree) \<longrightarrow>
            map_of depTree ''import'' = Some (TString i) \<longrightarrow>
            DepValidate X (entryDep X depTree i) = None \<longrightarrow>
            addDepsKeys X t (k # ks) mc deps pos v = (r1, v') \<longrightarrow>
            prefix (trace v @ [EvValidate (entryDep X depTree i),
                               EvFetch (entryDep X depTree i) mc]) (trace v') \<and>
            (mc \<longrightarrow> prefix (trace v @ [EvValidate (entryDep X depTree i),
                                       EvFetch (entryDep X depTree i) True,
                                       EvRetrieve (entryDep X depTree i)]) (trace v'))"
    using addDepsKeys_fetches_first by blast
qed

theorem retrieval_validation_order_witness:
  "(\<exists>l1 l2. trace (snd (loadDependencies exExt 3 ''.'' (exWorld ''one-branch''))) = l1 @ l2 \<and>
      list_all (\<lambda>e. loaderEvent e \<and> \<not> pipelineEvent e) l1 \<and>
      (l2 = [] \<or> (\<exists>errs l3. l2 = EvValidateSet errs # l3 \<and>
                           (errs \<noteq> [] \<longrightarrow> l3 = [EvFailWith errs])))) \<and>
   length (filter pipelineEvent
     (trace (snd (loadDependencies exExt 3 ''.'' (exWorld ''one-branch''))))) = 2"
proof -
  obtain r w' where run: "loadDependencies exExt 3 ''.'' (exWorld ''one-branch'') = (r, w')"
    by (cases "loadDependencies exExt 3 ''.'' (exWorld ''one-branch'')")
  have t0: "trace (exWorld ''one-branch'') = []" by (simp add: exWorld_def)
  from retrieval_validation_order[OF run]
  have 1: "\<exists>l1 l2. trace w' = l1 @ l2 \<and>
      list_all (\<lambda>e. loaderEvent e \<and> \<not> pipelineEvent e) l1 \<and>
      (l2 = [] \<or> (\<exists>errs l3. l2 = EvValidateSet errs # l3 \<and>
                           (errs \<noteq> [] \<longrightarrow> l3 = [EvFailWith errs])))"
    unfolding t0 by simp
  have 2: "length (filter pipelineEvent (trace w')) = 2"
    using run
    by (auto simp: ex_run_defs List.map_filter_def loadTransitiveDependencies.simps VisitDeps_def
        Get_def SwitchToBranchOrTag_def numeral_3_eq_3 WriteChecksum_def WriteFile_def)
  from 1 2 run show ?thesis by simp
qed

text \<open>
  Claim C2 as stated fails: on a first run, a declaration whose second entry lacks its
  import identifier (the key is missing, or the identifier is empty) has the Dep of its
  first entry retrieved by \<open>Fetch\<close> before the second entry is looked at; the run then
  panics on the failed type assertion, or exits with status 1.
\<close>

theorem retrieval_before_validation_counterexample:
  "fst (loadDependencies exExt 3 ''.'' (exWorld ''good-then-missing'')) = Panic \<and>
   trace (snd (loadDependencies exExt 3 ''.'' (exWorld ''good-then-missing''))) =
     [EvValidate (exampleDep ''example.org/one''), EvFetch (exampleDep ''example.org/one'') True,
      EvRetrieve (exampleDep ''example.org/one'')] \<and>
   fst (loadDependencies exExt 3 ''.'' (exWorld ''good-then-empty'')) = Exit 1 \<and>
   trace (snd (loadDependencies exExt 3 ''.'' (exWorld ''good-then-empty''))) =
     [EvValidate (exampleDep ''example.org/one''), EvFetch (exampleDep ''example.org/one'') True,
      EvRetrieve (exampleDep ''example.org/one''), EvValidate (exampleDep []),
      EvFailf ''missing import'']"
  by (simp add: ex_run_defs)

end
